theory Spec2Isabelle
  imports Complex_Main "HOL-Library.Log_Nat"
begin

section \<open>Values, errors and warnings\<close>

text \<open>
  The plotter of \<^verbatim>\<open>laplotter.py\<close> receives Python floats. A float is either a finite
  number, not-a-number, or one of the two infinities; a finite one is the rational it
  denotes. A keyword argument that was not supplied is \<^verbatim>\<open>None\<close>, modelled by
  \<open>None\<close> of the option type.
\<close>

datatype pyfloat = Finite rat | NaN | PosInf | NegInf

subsection \<open>Double precision\<close>

text \<open>
  A Python float is a double: a finite one is \<open>m \<cdot> 2\<^sup>e\<close> with an integer \<open>m\<close> below
  \<open>2\<^sup>5\<^sup>3\<close> in magnitude and \<open>e\<close> from \<open>-1074\<close> to \<open>971\<close>. An arithmetic operation
  returns its exact result rounded to the nearest double, a tie going to the even \<open>m\<close>;
  a result that rounds to \<open>2\<^sup>1\<^sup>0\<^sup>2\<^sup>4\<close> or beyond is an infinity. The exponent of a
  positive rational \<open>a\<close> is the \<open>e\<close> with \<open>2\<^sup>5\<^sup>2 \<le> a / 2\<^sup>e < 2\<^sup>5\<^sup>3\<close>, and \<open>-1074\<close>
  where that would be lower (the subnormal range). The sign of a zero is not kept.
\<close>

definition round_half_even :: "rat \<Rightarrow> int" where
  "round_half_even x =
     (let f = \<lfloor>x\<rfloor>; d = x - of_int f
      in if d < 1 / 2 then f else if 1 / 2 < d then f + 1 else if even f then f else f + 1)"

definition floor_log2 :: "rat \<Rightarrow> int" where
  "floor_log2 a =
     (let (n, d) = quotient_of a; k = bitlen n - bitlen d
      in if 2 powi k \<le> a then k else k - 1)"

definition double_exponent :: "rat \<Rightarrow> int" where
  "double_exponent a = max (floor_log2 a - 52) (- 1074)"

definition double_mantissa :: "rat \<Rightarrow> int" where
  "double_mantissa a = round_half_even (a / 2 powi double_exponent a)"

text \<open>The nearest double of a rational, as if the exponent had no upper end.\<close>

definition round_nearest :: "rat \<Rightarrow> rat" where
  "round_nearest q =
     (if q = 0 then 0
      else sgn q * of_int (double_mantissa \<bar>q\<bar>) * 2 powi double_exponent \<bar>q\<bar>)"

text \<open>
  The largest double is \<open>(2\<^sup>5\<^sup>3 - 1) \<cdot> 2\<^sup>9\<^sup>7\<^sup>1\<close>: a rounded value is out of range when its
  exponent is above 971, or is 971 with the mantissa rounded up to \<open>2\<^sup>5\<^sup>3\<close>.
\<close>

definition overflows :: "rat \<Rightarrow> bool" where
  "overflows q \<longleftrightarrow>
     q \<noteq> 0 \<and> (971 < double_exponent \<bar>q\<bar>
               \<or> double_exponent \<bar>q\<bar> = 971 \<and> 2 ^ 53 \<le> double_mantissa \<bar>q\<bar>)"

definition round_double :: "rat \<Rightarrow> pyfloat" where
  "round_double q =
     (if overflows q then (if q < 0 then NegInf else PosInf) else Finite (round_nearest q))"

datatype error = ZeroDivisionError | ValueError | TypeError | LinAlgError

fun isnan :: "pyfloat \<Rightarrow> bool" where
  "isnan NaN = True"
| "isnan _ = False"

fun isinf :: "pyfloat \<Rightarrow> bool" where
  "isinf PosInf = True"
| "isinf NegInf = True"
| "isinf _ = False"

text \<open>
  \<^verbatim>\<open>"%d" % x_index\<close>: the decimal digits of an integer, with a minus sign for a
  negative one.
\<close>

fun show_nat :: "nat \<Rightarrow> string" where
  "show_nat n = (if n < 10 then [''0123456789'' ! n]
                 else show_nat (n div 10) @ [''0123456789'' ! (n mod 10)])"

declare show_nat.simps [simp del]

definition show_int :: "int \<Rightarrow> string" where
  "show_int i = (if i < 0 then ''-'' @ show_nat (nat (- i)) else show_nat (nat i))"

text \<open>Reading a decimal numeral back, to check that the digits determine the number.\<close>

definition digit_of :: "char \<Rightarrow> nat" where
  "digit_of c = of_char c - 48"

definition read_nat :: "string \<Rightarrow> nat" where
  "read_nat cs = foldl (\<lambda>a c. 10 * a + digit_of c) 0 cs"

text \<open>
  \<^verbatim>\<open>warnings.warn(msg)\<close> is the only effect of the sanitizer: the function returns its
  result together with the list of messages it has emitted, in order. \<open>CHR 0x27\<close> is
  the apostrophe around \<^verbatim>\<open>%s\<close> in the format string.
\<close>

definition ignore_nan_and_inf :: "pyfloat option \<Rightarrow> string \<Rightarrow> int \<Rightarrow> pyfloat option \<times> string list" where
  "ignore_nan_and_inf value label x_index =
     (case value of
        None \<Rightarrow> (None, [])
      | Some v \<Rightarrow>
          if isnan v then
            (None, [''Got NaN for value '' @ [CHR 0x27] @ label @ [CHR 0x27] @ '' at x-index ''
                     @ show_int x_index])
          else if isinf v then
            (None, [''Got INF for value '' @ [CHR 0x27] @ label @ [CHR 0x27] @ '' at x-index ''
                     @ show_int x_index])
          else (Some v, []))"


section \<open>The plotter object\<close>

text \<open>
  The fields of \<^verbatim>\<open>LossAccPlotter\<close> that the analytics read or write: the smoothing
  window, the window-sizing policy of the regression, and the four channels, each a pair of
  parallel lists. The fields that only configure the drawing (figure, axes, line styles,
  title) are left out.
\<close>

record plotter =
  averages_period :: int
  poly_forward_perc :: rat
  poly_backward_perc :: rat
  poly_n_forward_min :: int
  poly_n_backward_min :: int
  poly_n_forward_max :: int
  poly_n_backward_max :: int
  poly_degree :: int
  values_loss_train_x :: "int list"
  values_loss_val_x :: "int list"
  values_acc_train_x :: "int list"
  values_acc_val_x :: "int list"
  values_loss_train_y :: "pyfloat list"
  values_loss_val_y :: "pyfloat list"
  values_acc_train_y :: "pyfloat list"
  values_acc_val_y :: "pyfloat list"

text \<open>
  The state that \<^verbatim>\<open>__init__\<close> leaves behind. The literals \<^verbatim>\<open>0.1\<close> and \<^verbatim>\<open>0.2\<close>
  are the doubles nearest to one tenth and to two tenths.
\<close>

definition init :: plotter where
  "init = \<lparr> averages_period = 20,
            poly_forward_perc = round_nearest (1 / 10),
            poly_backward_perc = round_nearest (2 / 10),
            poly_n_forward_min = 5,
            poly_n_backward_min = 10,
            poly_n_forward_max = 100,
            poly_n_backward_max = 100,
            poly_degree = 1,
            values_loss_train_x = [],
            values_loss_val_x = [],
            values_acc_train_x = [],
            values_acc_val_x = [],
            values_loss_train_y = [],
            values_loss_val_y = [],
            values_acc_train_y = [],
            values_acc_val_y = [] \<rparr>"

subsection \<open>Ingestion\<close>

text \<open>
  \<^verbatim>\<open>add_values\<close> up to the last append (lines 133 to 153). The index is an integer by
  the assertion on entry, so it is an \<open>int\<close> here; the assertion names \<^verbatim>\<open>long\<close>, the
  unbounded integer type of Python 2, the interpreter this method runs under. The four
  values pass through the sanitizer in the order of the source, and the warnings come out
  in that order. The tail of the method hands over to the drawing code, which does not
  assign to any of the eight lists.
\<close>

definition add_values ::
  "plotter \<Rightarrow> int \<Rightarrow> pyfloat option \<Rightarrow> pyfloat option \<Rightarrow> pyfloat option \<Rightarrow> pyfloat option
     \<Rightarrow> plotter \<times> string list" where
  "add_values self x_index loss_train loss_val acc_train acc_val =
     (let (loss_train', w1) = ignore_nan_and_inf loss_train ''loss train'' x_index;
          (loss_val', w2) = ignore_nan_and_inf loss_val ''loss val'' x_index;
          (acc_train', w3) = ignore_nan_and_inf acc_train ''acc train'' x_index;
          (acc_val', w4) = ignore_nan_and_inf acc_val ''acc val'' x_index;
          s1 = (case loss_train' of None \<Rightarrow> self
                | Some v \<Rightarrow> self\<lparr> values_loss_train_x := values_loss_train_x self @ [x_index],
                                   values_loss_train_y := values_loss_train_y self @ [v] \<rparr>);
          s2 = (case loss_val' of None \<Rightarrow> s1
                | Some v \<Rightarrow> s1\<lparr> values_loss_val_x := values_loss_val_x s1 @ [x_index],
                                 values_loss_val_y := values_loss_val_y s1 @ [v] \<rparr>);
          s3 = (case acc_train' of None \<Rightarrow> s2
                | Some v \<Rightarrow> s2\<lparr> values_acc_train_x := values_acc_train_x s2 @ [x_index],
                                 values_acc_train_y := values_acc_train_y s2 @ [v] \<rparr>);
          s4 = (case acc_val' of None \<Rightarrow> s3
                | Some v \<Rightarrow> s3\<lparr> values_acc_val_x := values_acc_val_x s3 @ [x_index],
                                 values_acc_val_y := values_acc_val_y s3 @ [v] \<rparr>)
      in (s4, w1 @ w2 @ w3 @ w4))"

text \<open>
  The four channels, and the views of the state and of a call that belong to one channel.
  They are used to state properties for every channel at once.
\<close>

datatype channel = LossTrain | LossVal | AccTrain | AccVal

fun series_x :: "channel \<Rightarrow> plotter \<Rightarrow> int list" where
  "series_x LossTrain s = values_loss_train_x s"
| "series_x LossVal s = values_loss_val_x s"
| "series_x AccTrain s = values_acc_train_x s"
| "series_x AccVal s = values_acc_val_x s"

fun series_y :: "channel \<Rightarrow> plotter \<Rightarrow> pyfloat list" where
  "series_y LossTrain s = values_loss_train_y s"
| "series_y LossVal s = values_loss_val_y s"
| "series_y AccTrain s = values_acc_train_y s"
| "series_y AccVal s = values_acc_val_y s"

text \<open>One call of \<^verbatim>\<open>add_values\<close>: the index and the four keyword arguments.\<close>

record call =
  c_index :: int
  c_loss_train :: "pyfloat option"
  c_loss_val :: "pyfloat option"
  c_acc_train :: "pyfloat option"
  c_acc_val :: "pyfloat option"

fun supplied :: "channel \<Rightarrow> call \<Rightarrow> pyfloat option" where
  "supplied LossTrain c = c_loss_train c"
| "supplied LossVal c = c_loss_val c"
| "supplied AccTrain c = c_acc_train c"
| "supplied AccVal c = c_acc_val c"

text \<open>A value survives sanitization when it was supplied and is finite.\<close>

fun survives :: "pyfloat option \<Rightarrow> bool" where
  "survives None = False"
| "survives (Some v) = (\<not> isnan v \<and> \<not> isinf v)"

definition add_call :: "plotter \<Rightarrow> call \<Rightarrow> plotter \<times> string list" where
  "add_call self c =
     add_values self (c_index c) (c_loss_train c) (c_loss_val c) (c_acc_train c) (c_acc_val c)"

text \<open>A sequence of calls, one after the other, collecting the warnings.\<close>

fun add_calls :: "plotter \<Rightarrow> call list \<Rightarrow> plotter \<times> string list" where
  "add_calls self [] = (self, [])"
| "add_calls self (c # cs) =
     (let (s1, w1) = add_call self c; (s2, w2) = add_calls s1 cs in (s2, w1 @ w2))"

text \<open>The observations of one channel that a sequence of calls leaves in the store.\<close>

fun kept :: "channel \<Rightarrow> call list \<Rightarrow> (int \<times> pyfloat) list" where
  "kept ch [] = []"
| "kept ch (c # cs) =
     (case supplied ch c of
        None \<Rightarrow> kept ch cs
      | Some v \<Rightarrow> if survives (Some v) then (c_index c, v) # kept ch cs else kept ch cs)"


section \<open>The smoother\<close>

text \<open>
  Float arithmetic as far as \<^verbatim>\<open>_calc_sma\<close> needs it: addition, subtraction, and the
  division of a float by a list length. The sum and the quotient of finite floats are
  rounded to double precision, and a sum out of range is an infinity. Not-a-number absorbs
  everything, the infinities absorb the finite numbers, and opposite infinities add up to
  not-a-number. Subtraction is the addition of the negated float, which rounds the same
  way. A list length becomes a float exactly. Dividing by the float \<open>0.0\<close> raises in
  Python.
\<close>

fun fl_add :: "pyfloat \<Rightarrow> pyfloat \<Rightarrow> pyfloat" where
  "fl_add (Finite a) (Finite b) = round_double (a + b)"
| "fl_add NaN _ = NaN"
| "fl_add _ NaN = NaN"
| "fl_add PosInf NegInf = NaN"
| "fl_add NegInf PosInf = NaN"
| "fl_add PosInf _ = PosInf"
| "fl_add _ PosInf = PosInf"
| "fl_add NegInf _ = NegInf"
| "fl_add _ NegInf = NegInf"

fun fl_neg :: "pyfloat \<Rightarrow> pyfloat" where
  "fl_neg (Finite a) = Finite (- a)"
| "fl_neg NaN = NaN"
| "fl_neg PosInf = NegInf"
| "fl_neg NegInf = PosInf"

definition fl_sub :: "pyfloat \<Rightarrow> pyfloat \<Rightarrow> pyfloat" where
  "fl_sub a b = fl_add a (fl_neg b)"

fun fl_div_len :: "pyfloat \<Rightarrow> nat \<Rightarrow> error + pyfloat" where
  "fl_div_len a 0 = Inl ZeroDivisionError"
| "fl_div_len (Finite a) n = Inr (round_double (a / of_nat n))"
| "fl_div_len v n = Inr v"

text \<open>
  The loop of \<^verbatim>\<open>_calc_sma\<close>, one equation per iteration. The arguments after the
  period are the values still to visit and the three locals \<^verbatim>\<open>last_ys\<close>,
  \<^verbatim>\<open>running_sum\<close> and \<^verbatim>\<open>result_y\<close>. \<^verbatim>\<open>last_ys.pop(0)\<close> follows an append, so
  the list it pops from is never empty.
\<close>

fun sma_loop ::
  "int \<Rightarrow> pyfloat list \<Rightarrow> pyfloat list \<Rightarrow> pyfloat \<Rightarrow> pyfloat list \<Rightarrow> error + pyfloat list" where
  "sma_loop period [] last_ys running_sum result_y = Inr result_y"
| "sma_loop period (y_val # rest) last_ys running_sum result_y =
     (let last_ys1 = last_ys @ [y_val];
          running_sum1 = fl_add running_sum y_val;
          (last_ys2, running_sum2) =
             (if int (length last_ys1) > period
              then (tl last_ys1, fl_sub running_sum1 (hd last_ys1))
              else (last_ys1, running_sum1))
      in case fl_div_len running_sum2 (length last_ys2) of
           Inl e \<Rightarrow> Inl e
         | Inr avg \<Rightarrow> sma_loop period rest last_ys2 running_sum2 (result_y @ [avg]))"

definition calc_sma :: "plotter \<Rightarrow> int list \<Rightarrow> pyfloat list \<Rightarrow> error + (int list \<times> pyfloat list)" where
  "calc_sma self x_values y_values =
     (case sma_loop (averages_period self) y_values [] (Finite 0) [] of
        Inl e \<Rightarrow> Inl e
      | Inr result_y \<Rightarrow> Inr (x_values, result_y))"

text \<open>
  What the specification asks of the smoothed value at position \<open>i\<close>: the mean of the
  last \<open>min window (i + 1)\<close> values ending at position \<open>i\<close>, in exact arithmetic.
\<close>

definition window_at :: "nat \<Rightarrow> nat \<Rightarrow> 'a list \<Rightarrow> 'a list" where
  "window_at w i ys = drop (Suc i - min w (Suc i)) (take (Suc i) ys)"

definition trailing_mean :: "nat \<Rightarrow> rat list \<Rightarrow> nat \<Rightarrow> rat" where
  "trailing_mean w ys i = sum_list (window_at w i ys) / of_nat (min w (Suc i))"

text \<open>
  A rational is a double when rounding leaves it as it is. The running sum of the loop
  loses nothing on a series whose sums of consecutive values, over the window and over the
  window with one value more, are all doubles.
\<close>

definition exact_double :: "rat \<Rightarrow> bool" where
  "exact_double q \<longleftrightarrow> round_double q = Finite q"

definition exact_sums :: "nat \<Rightarrow> rat list \<Rightarrow> bool" where
  "exact_sums w ys \<longleftrightarrow>
     list_all (\<lambda>i. exact_double (sum_list (window_at w i ys))
                    \<and> exact_double (sum_list (window_at (Suc w) i ys)))
       [0..<length ys]"


section \<open>The extrapolator\<close>

text \<open>\<^verbatim>\<open>int(x)\<close> of a finite float: the fraction is cut off, towards zero.\<close>

definition py_int :: "rat \<Rightarrow> int" where
  "py_int q = (if q < 0 then \<lceil>q\<rceil> else \<lfloor>q\<rfloor>)"

text \<open>
  \<^verbatim>\<open>nb_values * perc\<close>, an integer times a float: the integer becomes the nearest
  double (itself, below \<open>2\<^sup>5\<^sup>3\<close>), and the product is rounded to double precision. A
  product out of the range of doubles, on which \<^verbatim>\<open>int\<close> raises, takes a percentage
  beyond \<open>10\<^sup>2\<^sup>8\<^sup>9\<close> for any list that fits in memory; percentages are fractions, and
  that case is left out.
\<close>

definition fl_mul_int :: "nat \<Rightarrow> rat \<Rightarrow> rat" where
  "fl_mul_int n x = round_nearest (round_nearest (of_nat n) * x)"

text \<open>
  Lines 410 to 412 and 418 to 420: the two window sizes, from the number of observations.
\<close>

definition n_backward :: "plotter \<Rightarrow> nat \<Rightarrow> int" where
  "n_backward self nb_values =
     (let n = py_int (fl_mul_int nb_values (poly_backward_perc self));
          n = max n (poly_n_backward_min self);
          n = min n (poly_n_backward_max self)
      in n)"

definition n_forward :: "plotter \<Rightarrow> nat \<Rightarrow> int" where
  "n_forward self nb_values =
     (let n = py_int (fl_mul_int nb_values (poly_forward_perc self));
          n = max n (poly_n_forward_min self);
          n = min n (poly_n_forward_max self)
      in n)"

text \<open>
  The window size as the specification words it: the same product, with \<open>round\<close> to the
  nearest integer in place of \<^verbatim>\<open>int\<close>.
\<close>

definition spec_window_size :: "nat \<Rightarrow> rat \<Rightarrow> int \<Rightarrow> int \<Rightarrow> int" where
  "spec_window_size count percentage min_bound max_bound =
     min (max (round (fl_mul_int count percentage)) min_bound) max_bound"

text \<open>
  The slice \<^verbatim>\<open>xs[i:]\<close>: a negative start counts from the end, and a start outside the
  list is moved to the nearest end. \<^verbatim>\<open>xs[-n:]\<close> is \<open>slice_from (- n) xs\<close>, which is the
  whole list for \<open>n = 0\<close>.
\<close>

definition slice_from :: "int \<Rightarrow> 'a list \<Rightarrow> 'a list" where
  "slice_from i xs =
     (let n = int (length xs);
          j = (if i < 0 then max (n + i) 0 else min i n)
      in drop (nat j) xs)"

text \<open>\<^verbatim>\<open>range(a, b)\<close> as a list.\<close>

definition py_range :: "int \<Rightarrow> int \<Rightarrow> int list" where
  "py_range a b = [a..b - 1]"

text \<open>
  \<^verbatim>\<open>_calc_regression\<close>. The two functions of numpy are parameters: \<open>polyfit\<close> takes the
  points and the degree and returns the fitted coefficients or raises, and \<open>poly1d\<close> turns
  the coefficients into the function that evaluates the polynomial. The method is entered
  with at least two observations before \<^verbatim>\<open>x_values[-1]\<close> is read, so that read cannot
  fail.
\<close>

definition calc_regression ::
  "(int list \<Rightarrow> pyfloat list \<Rightarrow> int \<Rightarrow> error + 'c) \<Rightarrow> ('c \<Rightarrow> int \<Rightarrow> pyfloat)
     \<Rightarrow> plotter \<Rightarrow> int list \<Rightarrow> pyfloat list \<Rightarrow> error + (int list \<times> pyfloat list)" where
  "calc_regression polyfit poly1d self x_values y_values =
     (if x_values = [] \<or> length x_values < 2 then Inr ([], [])
      else
        let last_x = last x_values;
            nb_values = length x_values;
            n_b = n_backward self nb_values;
            n_f = n_forward self nb_values
        in if n_b \<le> 0 \<and> n_f \<le> 0 then Inr ([], [])
           else
             case polyfit (slice_from (- n_b) x_values) (slice_from (- n_b) y_values)
                    (poly_degree self) of
               Inl e \<Rightarrow> Inl e
             | Inr fit \<Rightarrow>
                 let poly = poly1d fit;
                     future_x = py_range last_x (last_x + n_f);
                     future_y = map poly future_x
                 in Inr (future_x, future_y))"

text \<open>
  A fit to run the extrapolator on examples: the least-squares line through the finite
  points, in exact arithmetic, as the coefficient list \<open>[slope, intercept]\<close> that
  \<^verbatim>\<open>np.polyfit\<close> returns for degree 1, and the evaluation of a coefficient list by
  Horner's rule, highest power first, as \<^verbatim>\<open>np.poly1d\<close> does. An empty or ragged input
  raises, as in numpy. Points that all share one x-value have no unique line; the flat
  line through their mean is returned for them.
\<close>

fun finite_values :: "pyfloat list \<Rightarrow> rat list option" where
  "finite_values [] = Some []"
| "finite_values (Finite r # vs) = map_option ((#) r) (finite_values vs)"
| "finite_values (_ # vs) = None"

definition lsq_line :: "int list \<Rightarrow> pyfloat list \<Rightarrow> int \<Rightarrow> error + rat list" where
  "lsq_line xs ys deg =
     (if xs = [] \<or> length xs \<noteq> length ys then Inl TypeError
      else case finite_values ys of
             None \<Rightarrow> Inl LinAlgError
           | Some rs \<Rightarrow>
               let n = of_nat (length xs);
                   qs = map of_int xs;
                   sx = sum_list qs;
                   sy = sum_list rs;
                   sxx = sum_list (map (\<lambda>q. q * q) qs);
                   sxy = sum_list (map (\<lambda>(q, r). q * r) (zip qs rs));
                   d = n * sxx - sx * sx
               in if d = 0 then Inr [0, sy / n]
                  else let slope = (n * sxy - sx * sy) / d
                       in Inr [slope, (sy - slope * sx) / n])"

definition horner :: "rat list \<Rightarrow> int \<Rightarrow> pyfloat" where
  "horner cs x = Finite (foldl (\<lambda>acc c. acc * of_int x + c) 0 cs)"


section \<open>The two queries over a store of list objects\<close>

text \<open>
  Python lists are objects: \<^verbatim>\<open>_calc_sma\<close> returns the very list it was given as
  \<^verbatim>\<open>x_values\<close>, and it appends to and pops from lists of its own while it reads
  \<^verbatim>\<open>y_values\<close>. To say that a query leaves the stored lists alone, the two methods
  are written a second time over a store of list objects: an address is a position in the
  store, the lists of integers and the lists of floats are kept apart, and a new list takes
  the next free position.
\<close>

type_synonym addr = nat

record heap =
  ilists :: "int list list"
  flists :: "pyfloat list list"

text \<open>A list display or comprehension makes a new object.\<close>

definition new_ilist :: "int list \<Rightarrow> heap \<Rightarrow> addr \<times> heap" where
  "new_ilist xs h = (length (ilists h), h\<lparr>ilists := ilists h @ [xs]\<rparr>)"

definition new_flist :: "pyfloat list \<Rightarrow> heap \<Rightarrow> addr \<times> heap" where
  "new_flist ys h = (length (flists h), h\<lparr>flists := flists h @ [ys]\<rparr>)"

text \<open>\<^verbatim>\<open>l.append(v)\<close> and \<^verbatim>\<open>l.pop(0)\<close> change the object in place.\<close>

definition fappend :: "addr \<Rightarrow> pyfloat \<Rightarrow> heap \<Rightarrow> heap" where
  "fappend a v h = h\<lparr>flists := (flists h)[a := flists h ! a @ [v]]\<rparr>"

definition fpop0 :: "addr \<Rightarrow> heap \<Rightarrow> pyfloat \<times> heap" where
  "fpop0 a h = (hd (flists h ! a), h\<lparr>flists := (flists h)[a := tl (flists h ! a)]\<rparr>)"

text \<open>
  The loop of \<^verbatim>\<open>_calc_sma\<close> over the store. \<^verbatim>\<open>for y_val in y_values\<close> reads the
  list object at each step, by position \<open>i\<close>, so a body that appended to the list it
  iterates over would never leave the loop: the function is partial, and \<open>None\<close> is
  the run that does not end. A raised error leaves the store as it is at that moment.
\<close>

partial_function (option) sma_loop_h ::
  "int \<Rightarrow> addr \<Rightarrow> nat \<Rightarrow> addr \<Rightarrow> pyfloat \<Rightarrow> addr \<Rightarrow> heap \<Rightarrow> ((error + unit) \<times> heap) option" where
  "sma_loop_h period y_values i last_ys running_sum result_y h =
     (if i < length (flists h ! y_values) then
        let y_val = flists h ! y_values ! i;
            h1 = fappend last_ys y_val h;
            running_sum1 = fl_add running_sum y_val;
            (running_sum2, h2) =
               (if int (length (flists h1 ! last_ys)) > period
                then let (poped_y, h') = fpop0 last_ys h1 in (fl_sub running_sum1 poped_y, h')
                else (running_sum1, h1))
        in case fl_div_len running_sum2 (length (flists h2 ! last_ys)) of
             Inl e \<Rightarrow> Some (Inl e, h2)
           | Inr avg \<Rightarrow>
               sma_loop_h period y_values (Suc i) last_ys running_sum2 result_y
                 (fappend result_y avg h2)
      else Some (Inr (), h))"

declare sma_loop_h.simps [code]

text \<open>
  \<^verbatim>\<open>result_x, result_y, last_ys = [], [], []\<close> makes three new lists; the first one
  is never used, and the list returned for the x-values is the argument itself.
\<close>

definition calc_sma_h ::
  "plotter \<Rightarrow> addr \<Rightarrow> addr \<Rightarrow> heap \<Rightarrow> ((error + addr \<times> addr) \<times> heap) option" where
  "calc_sma_h self x_values y_values h =
     (let (result_x, h1) = new_ilist [] h;
          (result_y, h2) = new_flist [] h1;
          (last_ys, h3) = new_flist [] h2
      in case sma_loop_h (averages_period self) y_values 0 last_ys (Finite 0) result_y h3 of
           None \<Rightarrow> None
         | Some (Inl e, h4) \<Rightarrow> Some (Inl e, h4)
         | Some (Inr _, h4) \<Rightarrow> Some (Inr (x_values, result_y), h4))"

text \<open>
  \<^verbatim>\<open>_calc_regression\<close> over the store. Each slice and each comprehension is a new
  list, and so is each of the two empty lists of an early return. \<open>polyfit\<close> receives
  the contents of the two slices; numpy copies its arguments into arrays of its own.
\<close>

definition calc_regression_h ::
  "(int list \<Rightarrow> pyfloat list \<Rightarrow> int \<Rightarrow> error + 'c) \<Rightarrow> ('c \<Rightarrow> int \<Rightarrow> pyfloat)
     \<Rightarrow> plotter \<Rightarrow> addr \<Rightarrow> addr \<Rightarrow> heap \<Rightarrow> (error + addr \<times> addr) \<times> heap" where
  "calc_regression_h polyfit poly1d self x_values y_values h =
     (if ilists h ! x_values = [] \<or> length (ilists h ! x_values) < 2 then
        let (e1, h1) = new_ilist [] h; (e2, h2) = new_flist [] h1 in (Inr (e1, e2), h2)
      else
        let last_x = last (ilists h ! x_values);
            nb_values = length (ilists h ! x_values);
            n_b = n_backward self nb_values;
            n_f = n_forward self nb_values
        in if n_b \<le> 0 \<and> n_f \<le> 0 then
             let (e1, h1) = new_ilist [] h; (e2, h2) = new_flist [] h1 in (Inr (e1, e2), h2)
           else
             let (sx, h1) = new_ilist (slice_from (- n_b) (ilists h ! x_values)) h;
                 (sy, h2) = new_flist (slice_from (- n_b) (flists h1 ! y_values)) h1
             in case polyfit (ilists h2 ! sx) (flists h2 ! sy) (poly_degree self) of
                  Inl e \<Rightarrow> (Inl e, h2)
                | Inr fit \<Rightarrow>
                    let poly = poly1d fit;
                        (future_x, h3) = new_ilist (py_range last_x (last_x + n_f)) h2;
                        (future_y, h4) = new_flist (map poly (ilists h3 ! future_x)) h3
                    in (Inr (future_x, future_y), h4))"

text \<open>
  What a result denotes in a store, when its addresses are in the store, and when a store
  holds every list of an earlier store with its content unchanged.
\<close>

definition view :: "heap \<Rightarrow> error + addr \<times> addr \<Rightarrow> error + int list \<times> pyfloat list" where
  "view h r = (case r of Inl e \<Rightarrow> Inl e | Inr (xa, ya) \<Rightarrow> Inr (ilists h ! xa, flists h ! ya))"

definition valid_result :: "heap \<Rightarrow> error + addr \<times> addr \<Rightarrow> bool" where
  "valid_result h r =
     (case r of Inl e \<Rightarrow> True | Inr (xa, ya) \<Rightarrow> xa < length (ilists h) \<and> ya < length (flists h))"

definition preserved :: "heap \<Rightarrow> heap \<Rightarrow> bool" where
  "preserved h h' \<longleftrightarrow>
     take (length (ilists h)) (ilists h') = ilists h
     \<and> take (length (flists h)) (flists h') = flists h"

section \<open>Rounding to double precision\<close>

text \<open>
  What the rounding does: the exponent it finds brackets the number, the rounded number is
  within half a unit of the last place, and a number that is a double already is left as it
  is.
\<close>

lemma round_half_even_near: "\<bar>of_int (round_half_even x) - x\<bar> \<le> 1 / 2"
proof -
  have "of_int \<lfloor>x\<rfloor> \<le> x" "x < of_int \<lfloor>x\<rfloor> + 1" by linarith+
  then show ?thesis
    unfolding round_half_even_def Let_def by (auto simp: abs_if) linarith+
qed

lemma round_half_even_of_int: "round_half_even (of_int m) = m"
  by (simp add: round_half_even_def)

lemma floor_log2_bounds:
  assumes "0 < a"
  shows "2 powi floor_log2 a \<le> a \<and> a < 2 powi (floor_log2 a + 1)"
proof -
  obtain n d where q: "quotient_of a = (n, d)" by (cases "quotient_of a")
  have d: "0 < d" using q quotient_of_denom_pos by blast
  have a: "a = of_int n / of_int d" using q by (simp add: quotient_of_div)
  have n: "0 < n" using assms a d by (simp add: zero_less_divide_iff)
  let ?bn = "bitlen n" and ?bd = "bitlen d"
  have bn1: "1 \<le> ?bn" and bd1: "1 \<le> ?bd"
    using n d bitlen_eq_zero_iff [of n] bitlen_eq_zero_iff [of d] bitlen_nonneg [of n] bitlen_nonneg [of d]
    by linarith+
  have nb: "2 ^ nat (?bn - 1) \<le> n" "n < 2 ^ nat ?bn"
    using bitlen_bounds [OF n] by simp_all
  have db: "2 ^ nat (?bd - 1) \<le> d" "d < 2 ^ nat ?bd"
    using bitlen_bounds [OF d] by simp_all
  have pw: "(2::rat) powi k = of_int (2 ^ nat k)" if "0 \<le> k" for k
    using that by (simp add: power_int_nonneg_exp)
  have nr: "(2::rat) powi (?bn - 1) \<le> of_int n" "rat_of_int n < 2 powi ?bn"
    using nb bn1 by (simp_all only: pw of_int_le_iff of_int_less_iff) 
  have dr: "(2::rat) powi (?bd - 1) \<le> of_int d" "rat_of_int d < 2 powi ?bd"
    using db bd1 by (simp_all only: pw of_int_le_iff of_int_less_iff)
  have pos: "(0::rat) < 2 powi k" for k by simp
  have "a < 2 powi ?bn / 2 powi (?bd - 1)"
    unfolding a using n nr(2) dr(1) pos [of "?bd - 1"] by (intro frac_less) simp_all
  moreover have "(2::rat) powi (?bn - ?bd + 1) = 2 powi ?bn / 2 powi (?bd - 1)"
    using power_int_diff [of "2::rat" ?bn "?bd - 1"] by (simp add: algebra_simps)
  ultimately have up: "a < 2 powi (?bn - ?bd + 1)" by simp
  have "2 powi (?bn - 1) / 2 powi ?bd < a"
    unfolding a using d nr(1) dr(2) pos [of "?bn - 1"] by (intro frac_less2) simp_all
  moreover have "(2::rat) powi (?bn - ?bd - 1) = 2 powi (?bn - 1) / 2 powi ?bd"
    using power_int_diff [of "2::rat" "?bn - 1" ?bd] by (simp add: algebra_simps)
  ultimately have low: "2 powi (?bn - ?bd - 1) < a" by simp
  show ?thesis
  proof (cases "2 powi (?bn - ?bd) \<le> a")
    case True
    then have "floor_log2 a = ?bn - ?bd" by (simp add: floor_log2_def q)
    then show ?thesis using True up by simp
  next
    case False
    then have "floor_log2 a = ?bn - ?bd - 1" by (simp add: floor_log2_def q)
    then show ?thesis using False low by simp
  qed
qed

lemma floor_log2_less:
  assumes "0 < a" and "a < 2 powi k"
  shows "floor_log2 a < k"
proof (rule ccontr)
  assume "\<not> floor_log2 a < k"
  then have "(2::rat) powi k \<le> 2 powi floor_log2 a"
    by (intro power_int_increasing) simp_all
  then show False using floor_log2_bounds [OF assms(1)] assms(2) by linarith
qed

lemma double_exponent_le:
  assumes "0 < a"
  shows "2 powi (double_exponent a + 52) \<le> a \<or> double_exponent a = - 1074"
proof (cases "- 1074 \<le> floor_log2 a - 52")
  case True
  then have "double_exponent a + 52 = floor_log2 a" by (simp add: double_exponent_def)
  then show ?thesis using floor_log2_bounds [OF assms] by simp
next
  case False
  then show ?thesis by (simp add: double_exponent_def)
qed

text \<open>Rounding moves a number by at most half a unit of its last place.\<close>

lemma round_nearest_error:
  "\<bar>round_nearest q - q\<bar> \<le> 2 powi (double_exponent \<bar>q\<bar> - 1)"
proof (cases "q = 0")
  case True
  then show ?thesis by (simp add: round_nearest_def)
next
  case False
  let ?e = "double_exponent \<bar>q\<bar>"
  let ?m = "double_mantissa \<bar>q\<bar>"
  have p: "(0::rat) < 2 powi ?e" by simp
  have "\<bar>of_int ?m - \<bar>q\<bar> / 2 powi ?e\<bar> \<le> 1 / 2"
    unfolding double_mantissa_def by (rule round_half_even_near)
  then have "\<bar>of_int ?m - \<bar>q\<bar> / 2 powi ?e\<bar> * 2 powi ?e \<le> 1 / 2 * 2 powi ?e"
    using p by (intro mult_right_mono) simp_all
  moreover have "\<bar>of_int ?m - \<bar>q\<bar> / 2 powi ?e\<bar> * 2 powi ?e = \<bar>of_int ?m * 2 powi ?e - \<bar>q\<bar>\<bar>"
  proof -
    have "\<bar>of_int ?m - \<bar>q\<bar> / 2 powi ?e\<bar> * 2 powi ?e = \<bar>(of_int ?m - \<bar>q\<bar> / 2 powi ?e) * 2 powi ?e\<bar>"
      by (simp add: abs_mult)
    also have "(of_int ?m - \<bar>q\<bar> / 2 powi ?e) * 2 powi ?e = of_int ?m * 2 powi ?e - \<bar>q\<bar>"
      by (simp add: field_simps)
    finally show ?thesis .
  qed
  moreover have "1 / 2 * (2::rat) powi ?e = 2 powi (?e - 1)"
    by (simp add: power_int_diff)
  moreover have "\<bar>round_nearest q - q\<bar> = \<bar>of_int ?m * 2 powi ?e - \<bar>q\<bar>\<bar>"
  proof (cases "q < 0")
    case True
    then have "round_nearest q - q = - (of_int ?m * 2 powi ?e - \<bar>q\<bar>)"
      by (simp add: round_nearest_def)
    then show ?thesis by (simp only: abs_minus_cancel)
  next
    case False
    then have "round_nearest q - q = of_int ?m * 2 powi ?e - \<bar>q\<bar>"
      using \<open>q \<noteq> 0\<close> by (simp add: round_nearest_def)
    then show ?thesis by simp
  qed
  ultimately show ?thesis by simp
qed

text \<open>
  A double is left as it is: the exponent found for \<open>m \<cdot> 2\<^sup>e\<close> is at most \<open>e\<close>, and the
  mantissa is the integer \<open>\<bar>m\<bar> \<cdot> 2\<^sup>e\<^sup>-\<^sup>E\<close>.
\<close>

lemma double_parts_exact:
  assumes m: "\<bar>m\<bar> < 2 ^ 53" and e: "- 1074 \<le> e" and nz: "m \<noteq> 0"
  shows "double_exponent \<bar>of_int m * 2 powi e\<bar> \<le> e
         \<and> double_mantissa \<bar>of_int m * 2 powi e\<bar> =
             \<bar>m\<bar> * 2 ^ nat (e - double_exponent \<bar>of_int m * 2 powi e\<bar>)"
proof -
  let ?q = "rat_of_int m * 2 powi e"
  let ?a = "\<bar>?q\<bar>"
  have a: "?a = of_int \<bar>m\<bar> * 2 powi e" by (simp add: abs_mult)
  have apos: "0 < ?a" using nz by simp
  have "rat_of_int \<bar>m\<bar> < 2 ^ 53" using m by (metis of_int_less_iff of_int_numeral of_int_power)
  then have "?a < 2 powi 53 * 2 powi e"
    unfolding a by (intro mult_strict_right_mono) simp_all
  then have "?a < 2 powi (53 + e)" by (simp add: power_int_add)
  then have "floor_log2 ?a < 53 + e" using floor_log2_less [OF apos] by blast
  then have "double_exponent ?a \<le> e" using e by (simp add: double_exponent_def)
  define E where "E = double_exponent ?a"
  have le: "E \<le> e" using \<open>double_exponent ?a \<le> e\<close> by (simp add: E_def)
  define k where "k = \<bar>m\<bar> * 2 ^ nat (e - E)"
  have shift: "(2::rat) powi e = of_int (2 ^ nat (e - E)) * 2 powi E"
  proof -
    have "(2::rat) powi e = 2 powi (e - E) * 2 powi E"
      by (simp flip: power_int_add)
    then show ?thesis using le by (simp add: power_int_nonneg_exp)
  qed
  have ak: "?a = of_int k * 2 powi E"
    unfolding a k_def by (subst shift) simp
  have "?a / 2 powi E = of_int k"
    unfolding ak by simp
  then have "double_mantissa ?a = k"
    unfolding double_mantissa_def E_def [symmetric] by (simp only: round_half_even_of_int)
  then show ?thesis using le unfolding E_def k_def by simp
qed

lemma round_nearest_exact:
  assumes m: "\<bar>m\<bar> < 2 ^ 53" and e: "- 1074 \<le> e"
  shows "round_nearest (of_int m * 2 powi e) = of_int m * 2 powi e"
proof (cases "m = 0")
  case True
  then show ?thesis by (simp add: round_nearest_def)
next
  case False
  let ?q = "rat_of_int m * 2 powi e"
  define E where "E = double_exponent \<bar>?q\<bar>"
  have le: "E \<le> e" and mant: "double_mantissa \<bar>?q\<bar> = \<bar>m\<bar> * 2 ^ nat (e - E)"
    using double_parts_exact [OF m e False] by (simp_all add: E_def)
  have "(2::rat) powi e = 2 powi (e - E) * 2 powi E"
    by (simp flip: power_int_add)
  then have shift: "(2::rat) powi e = of_int (2 ^ nat (e - E)) * 2 powi E"
    using le by (simp add: power_int_nonneg_exp)
  have "?q \<noteq> 0" using False by simp
  then have "round_nearest ?q = sgn ?q * of_int (\<bar>m\<bar> * 2 ^ nat (e - E)) * 2 powi E"
    unfolding round_nearest_def mant E_def [symmetric] by simp
  also have "\<dots> = sgn ?q * (of_int \<bar>m\<bar> * (of_int (2 ^ nat (e - E)) * 2 powi E))"
    by simp
  also have "\<dots> = sgn ?q * (of_int \<bar>m\<bar> * 2 powi e)"
    by (simp only: shift [symmetric])
  also have "\<dots> = sgn ?q * \<bar>?q\<bar>" by (simp add: abs_mult)
  also have "\<dots> = ?q" by (simp only: sgn_mult_abs)
  finally show ?thesis .
qed

lemma round_double_exact:
  assumes m: "\<bar>m\<bar> < 2 ^ 53" and e: "- 1074 \<le> e" "e \<le> 971"
  shows "round_double (of_int m * 2 powi e) = Finite (of_int m * 2 powi e)"
proof (cases "m = 0")
  case True
  then show ?thesis by (simp add: round_double_def overflows_def round_nearest_def)
next
  case False
  let ?q = "rat_of_int m * 2 powi e"
  define E where "E = double_exponent \<bar>?q\<bar>"
  have le: "E \<le> e" and mant: "double_mantissa \<bar>?q\<bar> = \<bar>m\<bar> * 2 ^ nat (e - E)"
    using double_parts_exact [OF m e(1) False] by (simp_all add: E_def)
  have "\<not> 971 < E" using le e(2) by simp
  moreover have "double_mantissa \<bar>?q\<bar> < 2 ^ 53" if "E = 971"
  proof -
    have "e = E" using that le e(2) by simp
    then show ?thesis using mant m by simp
  qed
  ultimately have "\<not> overflows ?q"
    unfolding overflows_def E_def [symmetric] by auto
  then show ?thesis
    using round_nearest_exact [OF m e(1)] by (simp add: round_double_def)
qed

lemma round_nearest_int: "\<bar>m\<bar> < 2 ^ 53 \<Longrightarrow> round_nearest (of_int m) = of_int m"
  using round_nearest_exact [of m 0] by simp

lemma round_double_int: "\<bar>m\<bar> < 2 ^ 53 \<Longrightarrow> round_double (of_int m) = Finite (of_int m)"
  using round_double_exact [of m 0] by simp

lemma fl_mul_int_small:
  assumes "int n < 2 ^ 53"
  shows "fl_mul_int n x = round_nearest (of_nat n * x)"
proof -
  have "\<bar>int n\<bar> < 2 ^ 53" using assms by (simp only: abs_of_nat)
  then have "round_nearest (of_int (int n)) = of_int (int n)" by (rule round_nearest_int)
  then show ?thesis by (simp add: fl_mul_int_def)
qed

lemma fl_mul_int_error:
  assumes "int n < 2 ^ 53"
  shows "\<bar>fl_mul_int n x - of_nat n * x\<bar> \<le> 2 powi (double_exponent \<bar>of_nat n * x\<bar> - 1)"
  unfolding fl_mul_int_small [OF assms] by (rule round_nearest_error)

text \<open>
  A power of two beyond the largest double is out of range, and so is the sum of two
  floats \<open>2\<^sup>1\<^sup>0\<^sup>2\<^sup>3\<close>.
\<close>

lemma floor_log2_pow2: "floor_log2 (2 powi k) = k"
proof -
  have pos: "(0::rat) < 2 powi k" by simp
  have b: "(2::rat) powi floor_log2 (2 powi k) \<le> 2 powi k"
    "(2::rat) powi k < 2 powi (floor_log2 (2 powi k) + 1)"
    using floor_log2_bounds [OF pos] by simp_all
  have "\<not> k < floor_log2 (2 powi k)"
  proof
    assume "k < floor_log2 (2 powi k)"
    then have "(2::rat) powi k < 2 powi floor_log2 (2 powi k)"
      by (intro power_int_strict_increasing) simp_all
    then show False using b(1) by simp
  qed
  moreover have "\<not> floor_log2 (2 powi k) + 1 \<le> k"
  proof
    assume "floor_log2 (2 powi k) + 1 \<le> k"
    then have "(2::rat) powi (floor_log2 (2 powi k) + 1) \<le> 2 powi k"
      by (intro power_int_increasing) simp_all
    then show False using b(2) by simp
  qed
  ultimately show ?thesis by linarith
qed

lemma overflows_pow2: "971 + 52 < k \<Longrightarrow> overflows (2 powi k)"
  by (simp add: overflows_def double_exponent_def floor_log2_pow2)

lemma fl_add_overflow: "fl_add (Finite (2 powi 1023)) (Finite (2 powi 1023)) = PosInf"
proof -
  have "(2::rat) powi 1023 + 2 powi 1023 = 2 powi 1024"
    using power_int_add_1 [of "2::rat" 1023] by simp
  moreover have "overflows ((2::rat) powi 1024)" by (rule overflows_pow2) simp
  ultimately show ?thesis
    by (simp only: fl_add.simps round_double_def) simp
qed

section \<open>Auxiliary facts\<close>

lemma py_range_shift: "py_range a (a + int m) = map (\<lambda>k. a + int k) [0..<m]"
proof (induction m)
  case 0
  show ?case by (simp add: py_range_def)
next
  case (Suc m)
  have "py_range a (a + int (Suc m)) = [a..(a + int m - 1) + 1]"
    by (simp add: py_range_def)
  also have "\<dots> = [a..a + int m - 1] @ [a + int m]"
    by (subst upto_rec2) simp_all
  finally show ?case using Suc by (simp add: py_range_def)
qed

lemma py_range_nat: "0 \<le> n \<Longrightarrow> py_range a (a + n) = map (\<lambda>k. a + int k) [0..<nat n]"
  using py_range_shift [of a "nat n"] by simp

lemma slice_from_zero: "slice_from 0 xs = xs"
  by (simp add: slice_from_def)

text \<open>
  \<^verbatim>\<open>int\<close> cuts towards zero: the result is the integer of the same sign whose magnitude
  is the magnitude of the argument rounded down.
\<close>

lemma py_int_trunc:
  "\<bar>of_int (py_int q)\<bar> \<le> \<bar>q\<bar> \<and> \<bar>q\<bar> < \<bar>of_int (py_int q)\<bar> + 1 \<and> 0 \<le> of_int (py_int q) * q"
proof (cases "q < 0")
  case True
  then have neg: "\<lceil>q\<rceil> \<le> 0" by (simp add: ceiling_le_zero)
  then have a: "\<bar>rat_of_int \<lceil>q\<rceil>\<bar> = - of_int \<lceil>q\<rceil>" by simp
  have b: "q \<le> of_int \<lceil>q\<rceil>" "of_int \<lceil>q\<rceil> < q + 1" by linarith+
  have c: "0 \<le> rat_of_int \<lceil>q\<rceil> * q"
    using neg True by (simp add: mult_nonpos_nonpos)
  show ?thesis using True a b c by (simp add: py_int_def)
next
  case False
  then have pos: "0 \<le> \<lfloor>q\<rfloor>" by simp
  then have a: "\<bar>rat_of_int \<lfloor>q\<rfloor>\<bar> = of_int \<lfloor>q\<rfloor>" by simp
  have b: "of_int \<lfloor>q\<rfloor> \<le> q" "q < of_int \<lfloor>q\<rfloor> + 1" by linarith+
  have c: "0 \<le> rat_of_int \<lfloor>q\<rfloor> * q"
    using pos False by simp
  show ?thesis using False a b c by (simp add: py_int_def)
qed

section \<open>The sanitizer\<close>

text \<open>
  The digits that \<^verbatim>\<open>%d\<close> prints can be read back, so two different indices never
  print alike.
\<close>

lemma digit_roundtrip: "d < 10 \<Longrightarrow> digit_of (''0123456789'' ! d) = d"
proof -
  assume "d < 10"
  then have "d \<in> {0, 1, 2, 3, 4, 5, 6, 7, 8, 9}" by auto
  then show ?thesis by (auto simp: digit_of_def)
qed

lemma digit_not_minus: "d < 10 \<Longrightarrow> ''0123456789'' ! d \<noteq> CHR ''-''"
proof -
  assume "d < 10"
  then have "d \<in> {0, 1, 2, 3, 4, 5, 6, 7, 8, 9}" by auto
  then show ?thesis by auto
qed

lemma read_show_nat: "read_nat (show_nat n) = n"
proof (induction n rule: show_nat.induct)
  case (1 n)
  show ?case
  proof (cases "n < 10")
    case True
    then show ?thesis
      by (subst show_nat.simps) (simp add: read_nat_def digit_roundtrip)
  next
    case False
    have "read_nat (show_nat n) = 10 * read_nat (show_nat (n div 10)) + digit_of (''0123456789'' ! (n mod 10))"
      using False by (subst show_nat.simps) (simp add: read_nat_def)
    also have "\<dots> = 10 * (n div 10) + n mod 10"
      using "1.IH" False by (simp add: digit_roundtrip)
    finally show ?thesis by simp
  qed
qed

lemma show_nat_hd: "show_nat n \<noteq> [] \<and> hd (show_nat n) \<noteq> CHR ''-''"
proof (induction n rule: show_nat.induct)
  case (1 n)
  show ?case
  proof (cases "n < 10")
    case True
    then show ?thesis
      by (subst (1 2) show_nat.simps) (simp add: digit_not_minus)
  next
    case False
    then show ?thesis
      using "1.IH" by (subst (1 2) show_nat.simps) simp
  qed
qed

lemma show_int_inj: "inj show_int"
proof (rule injI)
  fix i j :: int
  assume eq: "show_int i = show_int j"
  have neg_pos: False if "a < 0" "\<not> b < 0" "show_int a = show_int b" for a b
  proof -
    have "CHR ''-'' # show_nat (nat (- a)) = show_nat (nat b)"
      using that by (simp add: show_int_def)
    then have "hd (show_nat (nat b)) = CHR ''-''" by (metis list.sel(1))
    then show False using show_nat_hd by blast
  qed
  consider "i < 0" "j < 0" | "i < 0" "\<not> j < 0" | "\<not> i < 0" "j < 0" | "\<not> i < 0" "\<not> j < 0"
    by blast
  then show "i = j"
  proof cases
    case 1
    then have "show_nat (nat (- i)) = show_nat (nat (- j))"
      using eq by (simp add: show_int_def)
    then have "nat (- i) = nat (- j)" by (metis read_show_nat)
    then show ?thesis using 1 by simp
  next
    case 2
    then show ?thesis using neg_pos eq by blast
  next
    case 3
    then show ?thesis using neg_pos [of j i] eq by simp
  next
    case 4
    then have "show_nat (nat i) = show_nat (nat j)"
      using eq by (simp add: show_int_def)
    then have "nat i = nat j" by (metis read_show_nat)
    then show ?thesis using 4 by simp
  qed
qed

text \<open>
  Claim C5. For every label and index the sanitizer returns absent and warns nothing when
  the value is absent; returns absent and emits exactly one warning, which spells out the
  label and the index (different indices give different texts), when the value is
  not-a-number or either infinity; and returns a finite value as it is, with no warning.
  The function is total: there is no input on which it raises.
\<close>

theorem sanitizer_cases:
  "ignore_nan_and_inf None label i = (None, [])
   \<and> ignore_nan_and_inf (Some NaN) label i =
       (None, [''Got NaN for value '' @ [CHR 0x27] @ label @ [CHR 0x27] @ '' at x-index ''
                @ show_int i])
   \<and> ignore_nan_and_inf (Some PosInf) label i =
       (None, [''Got INF for value '' @ [CHR 0x27] @ label @ [CHR 0x27] @ '' at x-index ''
                @ show_int i])
   \<and> ignore_nan_and_inf (Some NegInf) label i =
       (None, [''Got INF for value '' @ [CHR 0x27] @ label @ [CHR 0x27] @ '' at x-index ''
                @ show_int i])
   \<and> ignore_nan_and_inf (Some (Finite r)) label i = (Some (Finite r), [])
   \<and> inj show_int"
  by (simp add: ignore_nan_and_inf_def show_int_inj)

section \<open>Window sizes\<close>

text \<open>
  The double product on the examples that tell it from the exact one: \<open>10 * 0.3\<close> is
  \<open>3.0\<close> although the double \<open>0.3\<close> lies below three tenths, and \<open>100 * 0.57\<close> lies
  below 57.
\<close>

lemma fl_mul_int_examples:
  "fl_mul_int 10 (round_nearest (3 / 10)) = 3"
  "round_nearest (3 / 10) < 3 / 10"
  "fl_mul_int 100 (round_nearest (57 / 100)) = 8022036836253695 / 140737488355328"
  "fl_mul_int 53 (round_nearest (2 / 10)) = 1491817376566477 / 140737488355328"
  by code_simp+

text \<open>
  Claim C1, as the specification states it, with \<open>round\<close>: refuted. With the
  configuration of \<^verbatim>\<open>__init__\<close> and 53 observations the product is a double just above
  10.6; the code cuts it to 10, rounding gives 11, and both lie inside the bounds 10 and
  100.
\<close>

theorem window_size_round_counterexample:
  "n_backward init 53 \<noteq>
     spec_window_size 53 (poly_backward_perc init) (poly_n_backward_min init)
       (poly_n_backward_max init)"
  by code_simp

text \<open>
  Claim C1, amended. Each window size is the double product of the number of observations
  and the percentage with its fraction cut off towards zero (an integer \<open>n\<close> of the sign
  of the product \<open>p\<close> with \<open>\<bar>n\<bar> \<le> \<bar>p\<bar> < \<bar>n\<bar> + 1\<close>), then raised to the lower bound by
  \<open>max\<close> and after that lowered to the upper bound by \<open>min\<close>, which puts it between
  the two bounds when the lower one does not exceed the upper one; the backward percentage
  and bounds are used for the fit window and the forward ones for the projection window.
\<close>

theorem window_size_truncates:
  "(let p = fl_mul_int count (poly_backward_perc self); n = py_int p
    in \<bar>of_int n\<bar> \<le> \<bar>p\<bar> \<and> \<bar>p\<bar> < \<bar>of_int n\<bar> + 1 \<and> 0 \<le> of_int n * p
       \<and> n_backward self count =
           min (max n (poly_n_backward_min self)) (poly_n_backward_max self)
       \<and> (poly_n_backward_min self \<le> poly_n_backward_max self \<longrightarrow>
            poly_n_backward_min self \<le> n_backward self count
            \<and> n_backward self count \<le> poly_n_backward_max self))
   \<and> (let p = fl_mul_int count (poly_forward_perc self); n = py_int p
    in \<bar>of_int n\<bar> \<le> \<bar>p\<bar> \<and> \<bar>p\<bar> < \<bar>of_int n\<bar> + 1 \<and> 0 \<le> of_int n * p
       \<and> n_forward self count =
           min (max n (poly_n_forward_min self)) (poly_n_forward_max self)
       \<and> (poly_n_forward_min self \<le> poly_n_forward_max self \<longrightarrow>
            poly_n_forward_min self \<le> n_forward self count
            \<and> n_forward self count \<le> poly_n_forward_max self))"
  using py_int_trunc [of "fl_mul_int count (poly_backward_perc self)"]
        py_int_trunc [of "fl_mul_int count (poly_forward_perc self)"]
  by (simp add: Let_def n_backward_def n_forward_def)

theorem window_size_truncates_witness:
  "poly_n_backward_min (init\<lparr>poly_backward_perc := round_nearest (3 / 10),
                             poly_n_backward_min := 0\<rparr>)
     \<le> poly_n_backward_max (init\<lparr>poly_backward_perc := round_nearest (3 / 10),
                                 poly_n_backward_min := 0\<rparr>)
   \<and> poly_n_forward_min (init\<lparr>poly_forward_perc := round_nearest (57 / 100),
                              poly_n_forward_min := 0\<rparr>)
     \<le> poly_n_forward_max (init\<lparr>poly_forward_perc := round_nearest (57 / 100),
                                poly_n_forward_min := 0\<rparr>)
   \<and> n_backward (init\<lparr>poly_backward_perc := round_nearest (3 / 10),
                     poly_n_backward_min := 0\<rparr>) 10 = 3
   \<and> n_forward (init\<lparr>poly_forward_perc := round_nearest (57 / 100),
                    poly_n_forward_min := 0\<rparr>) 100 = 56
   \<and> n_backward init 53 = 10
   \<and> n_forward init 53 = 5"
proof -
  let ?b = "init\<lparr>poly_backward_perc := round_nearest (3 / 10), poly_n_backward_min := 0\<rparr>"
  let ?f = "init\<lparr>poly_forward_perc := round_nearest (57 / 100), poly_n_forward_min := 0\<rparr>"
  have cut: "py_int (fl_mul_int 10 (round_nearest (3 / 10))) = 3"
    "py_int (fl_mul_int 100 (round_nearest (57 / 100))) = 56"
    "py_int (fl_mul_int 53 (round_nearest (2 / 10))) = 10"
    "py_int (fl_mul_int 53 (round_nearest (1 / 10))) = 5"
    by code_simp+
  have "n_backward ?b 10 = 3"
    using window_size_truncates [of 10 ?b] cut(1) by (simp add: Let_def init_def)
  moreover have "n_forward ?f 100 = 56"
    using window_size_truncates [of 100 ?f] cut(2) by (simp add: Let_def init_def)
  moreover have "n_backward init 53 = 10" "n_forward init 53 = 5"
    using window_size_truncates [of 53 init] cut(3,4) by (simp_all add: Let_def init_def)
  ultimately show ?thesis by (simp add: init_def)
qed

text \<open>
  Claim C8. Whatever the number of observations and the percentage, a window size lies
  between its two bounds as soon as the lower bound does not exceed the upper one; this
  holds for the backward and for the forward window.
\<close>

theorem window_size_within_bounds:
  "(poly_n_backward_min self \<le> poly_n_backward_max self \<longrightarrow>
      poly_n_backward_min self \<le> n_backward self count
      \<and> n_backward self count \<le> poly_n_backward_max self)
   \<and> (poly_n_forward_min self \<le> poly_n_forward_max self \<longrightarrow>
      poly_n_forward_min self \<le> n_forward self count
      \<and> n_forward self count \<le> poly_n_forward_max self)"
  by (simp add: n_backward_def n_forward_def Let_def)

theorem window_size_within_bounds_witness:
  "poly_n_backward_min init \<le> poly_n_backward_max init
   \<and> poly_n_forward_min init \<le> poly_n_forward_max init
   \<and> 10 \<le> n_backward init 53 \<and> n_backward init 53 \<le> 100
   \<and> 5 \<le> n_forward init 53 \<and> n_forward init 53 \<le> 100"
  using window_size_within_bounds [of init 53]
  by (simp add: init_def)

section \<open>The extrapolated segment\<close>

text \<open>
  Claim C3. A series of fewer than two observations, empty or of one point, gives the
  empty pair, and no error: the fit is not even attempted.
\<close>

theorem regression_short_series:
  "length x_values < 2 \<Longrightarrow> calc_regression polyfit poly1d self x_values y_values = Inr ([], [])"
  by (simp add: calc_regression_def)

theorem regression_short_series_witness:
  "length [7::int] < 2 \<and> calc_regression lsq_line horner init [7] [Finite 3] = Inr ([], [])
   \<and> calc_regression lsq_line horner init [] [] = Inr ([], [])"
  using regression_short_series [of "[7]" lsq_line horner init "[Finite 3]"]
        regression_short_series [of "[]" lsq_line horner init "[]"]
  by simp

text \<open>
  Claim C2. With at least two observations, a forward window of at least one, and a fit
  that has returned, the segment has exactly as many points as the forward window; its
  x-values are the last observed index and the integers that follow it, one by one; and
  each y-value is the fitted polynomial at the x-value of the same position.
\<close>

theorem extrapolated_segment:
  assumes len: "2 \<le> length x_values"
    and fwd: "1 \<le> n_forward self (length x_values)"
    and fit: "polyfit (slice_from (- n_backward self (length x_values)) x_values)
                (slice_from (- n_backward self (length x_values)) y_values)
                (poly_degree self) = Inr fit"
  shows "calc_regression polyfit poly1d self x_values y_values =
           Inr (map (\<lambda>k. last x_values + int k) [0..<nat (n_forward self (length x_values))],
                map (\<lambda>k. poly1d fit (last x_values + int k))
                  [0..<nat (n_forward self (length x_values))])"
proof -
  have ne: "x_values \<noteq> []" using len by auto
  have pos: "0 \<le> n_forward self (length x_values)" using fwd by simp
  show ?thesis
    using len fwd ne fit py_range_nat [OF pos, of "last x_values"]
    by (simp add: calc_regression_def Let_def comp_def)
qed

theorem extrapolated_segment_witness:
  "2 \<le> length [0, 1, 2, 3, 4, 5, 6, 7, 8, 9 :: int]
   \<and> n_forward (init\<lparr>poly_backward_perc := 1\<rparr>) 10 = 5
   \<and> calc_regression lsq_line horner (init\<lparr>poly_backward_perc := 1\<rparr>)
        [0, 1, 2, 3, 4, 5, 6, 7, 8, 9] (map Finite [0, 2, 4, 6, 8, 10, 12, 14, 16, 18])
      = Inr ([9, 10, 11, 12, 13], map Finite [18, 20, 22, 24, 26])"
proof -
  let ?s = "init\<lparr>poly_backward_perc := 1\<rparr>"
  let ?xs = "[0, 1, 2, 3, 4, 5, 6, 7, 8, 9 :: int]"
  let ?ys = "map Finite [0, 2, 4, 6, 8, 10, 12, 14, 16, 18]"
  have len: "length ?xs = 10" by simp
  have nf10: "n_forward ?s 10 = 5"
    by code_simp
  have nb10: "n_backward ?s 10 = 10"
    by code_simp
  have nf: "1 \<le> n_forward ?s (length ?xs)" "nat (n_forward ?s (length ?xs)) = 5"
    by (simp_all only: len nf10)
  have fit: "lsq_line (slice_from (- n_backward ?s (length ?xs)) ?xs)
               (slice_from (- n_backward ?s (length ?xs)) ?ys) (poly_degree ?s) = Inr [2, 0]"
    by (simp only: len nb10) (simp add: slice_from_def lsq_line_def Let_def)
  have up: "[0..<5] = [0, 1, 2, 3, 4]" by (simp add: upt_rec)
  have "calc_regression lsq_line horner ?s ?xs ?ys =
          Inr (map (\<lambda>k. last ?xs + int k) [0..<5],
               map (\<lambda>k. horner [2, 0] (last ?xs + int k)) [0..<5])"
    using extrapolated_segment [where x_values = ?xs and self = ?s and polyfit = lsq_line
        and y_values = ?ys and fit = "[2, 0]" and ?poly1d = horner, OF _ nf(1) fit]
    by (simp only: nf(2)) simp
  then show ?thesis
    using nf10 by (simp add: up horner_def)
qed

text \<open>
  Claim C10. With at least two observations, a backward window clamped to 0 and a positive
  forward window, the method does not return early: the slice \<^verbatim>\<open>x_values[-0:]\<close> is the
  whole list, so the fit receives every observation, and the result is the projection of
  that fit (or the error of the fit, if it raises).
\<close>

theorem zero_backward_fits_all:
  assumes len: "2 \<le> length x_values"
    and bwd: "n_backward self (length x_values) = 0"
    and fwd: "0 < n_forward self (length x_values)"
  shows "calc_regression polyfit poly1d self x_values y_values =
           (case polyfit x_values y_values (poly_degree self) of
              Inl e \<Rightarrow> Inl e
            | Inr fit \<Rightarrow>
                Inr (map (\<lambda>k. last x_values + int k) [0..<nat (n_forward self (length x_values))],
                     map (\<lambda>k. poly1d fit (last x_values + int k))
                       [0..<nat (n_forward self (length x_values))]))"
proof -
  have ne: "x_values \<noteq> []" using len by auto
  have pos: "0 \<le> n_forward self (length x_values)" using fwd by simp
  show ?thesis
    using len fwd ne bwd py_range_nat [OF pos, of "last x_values"]
    by (simp add: calc_regression_def Let_def comp_def slice_from_zero split: sum.splits)
qed

theorem zero_backward_fits_all_witness:
  "2 \<le> length [0, 1, 5 :: int]
   \<and> n_backward (init\<lparr>poly_n_backward_min := 0\<rparr>) 3 = 0
   \<and> n_forward (init\<lparr>poly_n_backward_min := 0\<rparr>) 3 = 5
   \<and> lsq_line [0, 1, 5] (map Finite [1, 2, 7]) 1 = Inr [17 / 14, 19 / 21]
   \<and> calc_regression lsq_line horner (init\<lparr>poly_n_backward_min := 0\<rparr>)
        [0, 1, 5] (map Finite [1, 2, 7])
      = Inr ([5, 6, 7, 8, 9],
             map Finite [293 / 42, 172 / 21, 395 / 42, 223 / 21, 71 / 6])"
proof -
  let ?s = "init\<lparr>poly_n_backward_min := 0\<rparr>"
  let ?xs = "[0, 1, 5 :: int]"
  let ?ys = "map Finite [1, 2, 7]"
  have len: "length ?xs = 3" by simp
  have nb3: "n_backward ?s 3 = 0"
    by code_simp
  have nf3: "n_forward ?s 3 = 5"
    by code_simp
  have nb: "n_backward ?s (length ?xs) = 0" by (simp only: len nb3)
  have nf: "0 < n_forward ?s (length ?xs)" "nat (n_forward ?s (length ?xs)) = 5"
    by (simp_all only: len nf3)
  have fit: "lsq_line ?xs ?ys 1 = Inr [17 / 14, 19 / 21]"
    by (simp add: lsq_line_def Let_def)
  have deg: "poly_degree ?s = 1" by (simp add: init_def)
  have up: "[0..<5] = [0, 1, 2, 3, 4]" by (simp add: upt_rec)
  have "calc_regression lsq_line horner ?s ?xs ?ys =
          Inr (map (\<lambda>k. last ?xs + int k) [0..<5],
               map (\<lambda>k. horner [17 / 14, 19 / 21] (last ?xs + int k)) [0..<5])"
    using zero_backward_fits_all [where x_values = ?xs and self = ?s and polyfit = lsq_line
        and y_values = ?ys and ?poly1d = horner, OF _ nb nf(1)] fit
    by (simp only: nf(2) deg) simp
  then show ?thesis
    using nb3 nf3 fit by (simp add: up horner_def)
qed


section \<open>Ingestion\<close>

text \<open>The value that leaves the sanitizer, whatever it warns.\<close>

lemma fst_ignore_nan_and_inf:
  "fst (ignore_nan_and_inf v label i) = (if survives v then v else None)"
  by (cases v) (simp_all add: ignore_nan_and_inf_def)

lemma add_values_state:
  "fst (add_values self x lt lv atr av) =
     (let s1 = (case (if survives lt then lt else None) of None \<Rightarrow> self
                | Some v \<Rightarrow> self\<lparr> values_loss_train_x := values_loss_train_x self @ [x],
                                   values_loss_train_y := values_loss_train_y self @ [v] \<rparr>);
          s2 = (case (if survives lv then lv else None) of None \<Rightarrow> s1
                | Some v \<Rightarrow> s1\<lparr> values_loss_val_x := values_loss_val_x s1 @ [x],
                                 values_loss_val_y := values_loss_val_y s1 @ [v] \<rparr>);
          s3 = (case (if survives atr then atr else None) of None \<Rightarrow> s2
                | Some v \<Rightarrow> s2\<lparr> values_acc_train_x := values_acc_train_x s2 @ [x],
                                 values_acc_train_y := values_acc_train_y s2 @ [v] \<rparr>)
      in (case (if survives av then av else None) of None \<Rightarrow> s3
                | Some v \<Rightarrow> s3\<lparr> values_acc_val_x := values_acc_val_x s3 @ [x],
                                 values_acc_val_y := values_acc_val_y s3 @ [v] \<rparr>))"
  unfolding add_values_def Let_def case_prod_beta fst_conv fst_ignore_nan_and_inf ..

lemma add_call_series:
  "series_x ch (fst (add_call self c)) =
     (if survives (supplied ch c) then series_x ch self @ [c_index c] else series_x ch self)"
  "series_y ch (fst (add_call self c)) =
     (case supplied ch c of
        None \<Rightarrow> series_y ch self
      | Some v \<Rightarrow> if survives (Some v) then series_y ch self @ [v] else series_y ch self)"
  by (cases ch; simp add: add_call_def add_values_state Let_def split: option.splits)+

text \<open>
  A call with not-a-number for one channel, a finite value for a second, nothing for a
  third and an infinity for the fourth: the finite value is stored, and two warnings are
  emitted.
\<close>

lemma add_values_example:
  "add_values init 3 (Some NaN) (Some (Finite 2)) None (Some PosInf) =
     (init\<lparr>values_loss_val_x := [3], values_loss_val_y := [Finite 2]\<rparr>,
      [''Got NaN for value '' @ [CHR 0x27] @ ''loss train'' @ [CHR 0x27] @ '' at x-index 3'',
       ''Got INF for value '' @ [CHR 0x27] @ ''acc val'' @ [CHR 0x27] @ '' at x-index 3''])"
  by (simp add: add_values_def ignore_nan_and_inf_def init_def show_int_def show_nat.simps)

text \<open>
  Claim C6. One call of \<^verbatim>\<open>add_values\<close> always returns a state, and what it does to a
  channel depends on that channel's argument alone: a supplied finite value is appended
  with the index, whatever the other three arguments are (not-a-number and the infinities
  included); an argument that is absent, not-a-number or infinite leaves the channel as it
  was, with nothing stored in its place. What the call emits are the warnings of the four
  sanitizer calls, and nothing else.
\<close>

theorem add_values_channelwise:
  "series_x ch (fst (add_call self c)) =
     (if survives (supplied ch c) then series_x ch self @ [c_index c] else series_x ch self)
   \<and> series_y ch (fst (add_call self c)) =
     (case supplied ch c of
        None \<Rightarrow> series_y ch self
      | Some v \<Rightarrow> if survives (Some v) then series_y ch self @ [v] else series_y ch self)
   \<and> snd (add_call self c) =
       snd (ignore_nan_and_inf (c_loss_train c) ''loss train'' (c_index c))
       @ snd (ignore_nan_and_inf (c_loss_val c) ''loss val'' (c_index c))
       @ snd (ignore_nan_and_inf (c_acc_train c) ''acc train'' (c_index c))
       @ snd (ignore_nan_and_inf (c_acc_val c) ''acc val'' (c_index c))"
  by (simp add: add_call_series) (simp add: add_call_def add_values_def case_prod_beta Let_def)

lemma add_calls_series:
  "series_x ch (fst (add_calls self cs)) = series_x ch self @ map fst (kept ch cs)
   \<and> series_y ch (fst (add_calls self cs)) = series_y ch self @ map snd (kept ch cs)"
proof (induction cs arbitrary: self)
  case Nil
  show ?case by simp
next
  case (Cons c cs)
  obtain s1 w1 where step: "add_call self c = (s1, w1)" by (cases "add_call self c")
  have s1: "s1 = fst (add_call self c)" using step by simp
  have "fst (add_calls self (c # cs)) = fst (add_calls s1 cs)"
    using step by (simp add: case_prod_beta)
  then show ?case
    using Cons.IH [of s1] by (simp add: s1 add_call_series split: option.splits)
qed

lemma add_calls_snoc:
  "fst (add_calls self (cs @ [c])) = fst (add_call (fst (add_calls self cs)) c)"
  by (induction cs arbitrary: self) (simp_all add: case_prod_beta)

text \<open>
  Claim C7. After any sequence of calls, from any state, each channel holds what it held
  before followed by the surviving observations of that channel in the order of the calls,
  indices as given (repeated and out of order included); one more call adds one index and
  one value at the end when its value survives, and nothing otherwise; and the two lists of
  the channel, of equal length before, are of equal length after, as they are after any
  sequence of calls on a new plotter.
\<close>

theorem series_append_only:
  "series_x ch (fst (add_calls self cs)) = series_x ch self @ map fst (kept ch cs)
   \<and> series_y ch (fst (add_calls self cs)) = series_y ch self @ map snd (kept ch cs)
   \<and> series_x ch (fst (add_calls self (cs @ [c]))) =
       series_x ch (fst (add_calls self cs)) @ (if survives (supplied ch c) then [c_index c] else [])
   \<and> series_y ch (fst (add_calls self (cs @ [c]))) =
       series_y ch (fst (add_calls self cs)) @
         (case supplied ch c of None \<Rightarrow> [] | Some v \<Rightarrow> if survives (Some v) then [v] else [])
   \<and> (length (series_x ch self) = length (series_y ch self) \<longrightarrow>
        length (series_x ch (fst (add_calls self cs))) =
        length (series_y ch (fst (add_calls self cs))))
   \<and> length (series_x ch (fst (add_calls init cs))) =
       length (series_y ch (fst (add_calls init cs)))"
proof -
  have "series_x ch init = []" and "series_y ch init = []"
    by (cases ch; simp add: init_def)+
  then show ?thesis
    by (simp add: add_calls_series add_calls_snoc add_call_series split: option.splits)
qed

theorem series_append_only_witness:
  "length (series_x LossVal init) = length (series_y LossVal init)
   \<and> series_x LossVal (fst (add_calls init
        [\<lparr>c_index = 5, c_loss_train = None, c_loss_val = Some (Finite 2), c_acc_train = None, c_acc_val = None\<rparr>,
         \<lparr>c_index = 3, c_loss_train = Some (Finite 1), c_loss_val = Some NaN, c_acc_train = None, c_acc_val = None\<rparr>,
         \<lparr>c_index = 3, c_loss_train = None, c_loss_val = Some (Finite 1), c_acc_train = None, c_acc_val = Some PosInf\<rparr>,
         \<lparr>c_index = 5, c_loss_train = None, c_loss_val = Some (Finite 2), c_acc_train = None, c_acc_val = None\<rparr>]))
       = [5, 3, 5]
   \<and> series_y LossVal (fst (add_calls init
        [\<lparr>c_index = 5, c_loss_train = None, c_loss_val = Some (Finite 2), c_acc_train = None, c_acc_val = None\<rparr>,
         \<lparr>c_index = 3, c_loss_train = Some (Finite 1), c_loss_val = Some NaN, c_acc_train = None, c_acc_val = None\<rparr>,
         \<lparr>c_index = 3, c_loss_train = None, c_loss_val = Some (Finite 1), c_acc_train = None, c_acc_val = Some PosInf\<rparr>,
         \<lparr>c_index = 5, c_loss_train = None, c_loss_val = Some (Finite 2), c_acc_train = None, c_acc_val = None\<rparr>]))
       = [Finite 2, Finite 1, Finite 2]"
  using series_append_only [of LossVal init
        "[\<lparr>c_index = 5, c_loss_train = None, c_loss_val = Some (Finite 2), c_acc_train = None, c_acc_val = None\<rparr>,
         \<lparr>c_index = 3, c_loss_train = Some (Finite 1), c_loss_val = Some NaN, c_acc_train = None, c_acc_val = None\<rparr>,
         \<lparr>c_index = 3, c_loss_train = None, c_loss_val = Some (Finite 1), c_acc_train = None, c_acc_val = Some PosInf\<rparr>,
         \<lparr>c_index = 5, c_loss_train = None, c_loss_val = Some (Finite 2), c_acc_train = None, c_acc_val = None\<rparr>]"]
  by (simp add: init_def)

section \<open>The smoothed series\<close>

text \<open>
  The window at position \<open>i\<close> has \<open>min w (i + 1)\<close> elements, and they are the elements
  of the list that end at position \<open>i\<close>.
\<close>

lemma window_at_length: "i < length ys \<Longrightarrow> length (window_at w i ys) = min w (Suc i)"
  by (simp add: window_at_def)

lemma window_at_nth:
  "i < length ys \<Longrightarrow> k < min w (Suc i) \<Longrightarrow>
     window_at w i ys ! k = ys ! (Suc i - min w (Suc i) + k)"
proof -
  assume i: "i < length ys" and k: "k < min w (Suc i)"
  have inside: "Suc i - min w (Suc i) + k < Suc i" using k by linarith
  have "window_at w i ys ! k = take (Suc i) ys ! (Suc i - min w (Suc i) + k)"
    using i k by (simp add: window_at_def)
  also have "\<dots> = ys ! (Suc i - min w (Suc i) + k)"
    using inside by (rule nth_take)
  finally show ?thesis .
qed


text \<open>A period that is not positive leaves an empty window behind: the division raises.\<close>

lemma sma_nonpositive_period:
  "averages_period self \<le> 0 \<Longrightarrow> calc_sma self x_values (y # ys) = Inl ZeroDivisionError"
  by (simp add: calc_sma_def Let_def)

text \<open>
  With a positive period the window is never empty when the quotient is taken, so the loop
  returns, with one smoothed value for every value, whatever the values are.
\<close>

lemma fl_div_len_Suc: "\<exists>v. fl_div_len a (Suc n) = Inr v"
  by (cases a) simp_all

lemma sma_loop_returns:
  assumes "0 < period"
  shows "\<exists>out. sma_loop period ys last_ys running_sum result_y = Inr out
               \<and> length out = length result_y + length ys"
proof (induction ys arbitrary: last_ys running_sum result_y)
  case Nil
  show ?case by simp
next
  case (Cons y ys)
  let ?l1 = "last_ys @ [y]"
  let ?c = "int (length ?l1) > period"
  let ?l2 = "if ?c then tl ?l1 else ?l1"
  let ?r2 = "if ?c then fl_sub (fl_add running_sum y) (hd ?l1) else fl_add running_sum y"
  have "length ?l2 \<noteq> 0"
  proof (cases ?c)
    case True
    then have "last_ys \<noteq> []" using assms by (cases last_ys) auto
    then show ?thesis using True by simp
  next
    case False
    then show ?thesis by simp
  qed
  then obtain k where k: "length ?l2 = Suc k" by (cases "length ?l2") auto
  obtain v where v: "fl_div_len ?r2 (length ?l2) = Inr v"
    using fl_div_len_Suc [of ?r2 k] k by auto
  have step: "sma_loop period (y # ys) last_ys running_sum result_y =
                sma_loop period ys ?l2 ?r2 (result_y @ [v])"
  proof (cases ?c)
    case True
    then show ?thesis using v by (simp add: Let_def)
  next
    case False
    then show ?thesis using v by (simp add: Let_def)
  qed
  obtain out where "sma_loop period ys ?l2 ?r2 (result_y @ [v]) = Inr out"
    and "length out = length (result_y @ [v]) + length ys"
    using Cons.IH [of ?l2 ?r2 "result_y @ [v]"] by blast
  then show ?case unfolding step by simp
qed

lemma calc_sma_returns:
  assumes "0 < averages_period self"
  shows "\<exists>sm. calc_sma self x_values y_values = Inr (x_values, sm) \<and> length sm = length y_values"
proof -
  obtain out where "sma_loop (averages_period self) y_values [] (Finite 0) [] = Inr out"
    and "length out = length y_values"
    using sma_loop_returns [OF assms, of y_values "[]" "Finite 0" "[]"] by auto
  then show ?thesis by (simp add: calc_sma_def)
qed

text \<open>Ingestion leaves the period alone, so this holds for the store after any calls.\<close>

lemma add_call_period: "averages_period (fst (add_call self c)) = averages_period self"
  by (simp add: add_call_def add_values_state Let_def split: option.splits)

lemma add_calls_period: "averages_period (fst (add_calls self cs)) = averages_period self"
  by (induction cs arbitrary: self) (simp_all add: case_prod_beta add_call_period)

lemma smoothed_view_of_store:
  assumes "0 < averages_period self"
    and "length (series_x ch self) = length (series_y ch self)"
  shows "\<exists>sm. calc_sma (fst (add_calls self cs)) (series_x ch (fst (add_calls self cs)))
                 (series_y ch (fst (add_calls self cs))) =
               Inr (series_x ch (fst (add_calls self cs)), sm)
             \<and> length sm = length (series_x ch (fst (add_calls self cs)))"
proof -
  let ?s = "fst (add_calls self cs)"
  have "0 < averages_period ?s"
    using assms(1) by (simp add: add_calls_period)
  moreover have "length (series_x ch ?s) = length (series_y ch ?s)"
    using assms(2) by (simp add: add_calls_series)
  ultimately show ?thesis
    using calc_sma_returns [of ?s "series_x ch ?s" "series_y ch ?s"] by simp
qed

text \<open>
  The invariant of the loop on a series whose sums are doubles: after the values
  \<open>done\<close>, the list \<^verbatim>\<open>last_ys\<close> holds the last \<open>w\<close> of them (all of them while there
  are fewer), and \<^verbatim>\<open>running_sum\<close> is their sum, with nothing lost.
\<close>

lemma fl_add_exact: "exact_double (a + b) \<Longrightarrow> fl_add (Finite a) (Finite b) = Finite (a + b)"
  by (simp add: exact_double_def)

lemma fl_sub_exact: "exact_double (a - b) \<Longrightarrow> fl_sub (Finite a) (Finite b) = Finite (a - b)"
  by (simp add: fl_sub_def exact_double_def)

lemma exact_sums_nth:
  "exact_sums w ys \<Longrightarrow> i < length ys \<Longrightarrow>
     exact_double (sum_list (window_at w i ys))
     \<and> exact_double (sum_list (window_at (Suc w) i ys))"
  by (simp add: exact_sums_def list_all_iff)

text \<open>
  Such a series: integers whose magnitudes add up to less than \<open>2\<^sup>5\<^sup>3\<close>.
\<close>

lemma sum_list_of_int: "sum_list (map rat_of_int ks) = of_int (sum_list ks)"
  by (induction ks) simp_all

lemma window_at_map: "window_at w i (map f ks) = map f (window_at w i ks)"
  by (simp add: window_at_def drop_map take_map)

lemma sum_list_abs_sublist:
  fixes ks :: "int list"
  shows "\<bar>sum_list (drop a (take b ks))\<bar> \<le> sum_list (map abs ks)"
proof -
  let ?zs = "map abs ks"
  have nonneg: "0 \<le> sum_list (map abs xs)" for xs :: "int list"
    by (rule sum_list_nonneg) auto
  have "\<bar>sum_list (drop a (take b ks))\<bar> \<le> sum_list (map abs (drop a (take b ks)))"
    by (rule sum_list_abs)
  also have "\<dots> \<le> sum_list (map abs (take a (take b ks))) + sum_list (map abs (drop a (take b ks)))"
    using nonneg [of "take a (take b ks)"] by simp
  also have "\<dots> = sum_list (map abs (take b ks))"
    by (metis append_take_drop_id map_append sum_list.append)
  also have "\<dots> \<le> sum_list (map abs (take b ks)) + sum_list (map abs (drop b ks))"
    using nonneg [of "drop b ks"] by simp
  also have "\<dots> = sum_list ?zs"
    by (metis append_take_drop_id map_append sum_list.append)
  finally show ?thesis .
qed

lemma exact_sums_int:
  assumes "sum_list (map abs ks) < 2 ^ 53"
  shows "exact_sums w (map of_int ks)"
proof -
  have "exact_double (sum_list (window_at v i (map of_int ks)))" for v i
  proof -
    have "\<bar>sum_list (window_at v i ks)\<bar> < 2 ^ 53"
      using sum_list_abs_sublist [of "Suc i - min v (Suc i)" "Suc i" ks] assms
      by (simp add: window_at_def)
    then have "round_double (of_int (sum_list (window_at v i ks))) =
                 Finite (of_int (sum_list (window_at v i ks)))"
      by (rule round_double_int)
    moreover have "sum_list (window_at v i (map rat_of_int ks)) =
                     of_int (sum_list (window_at v i ks))"
      by (simp add: window_at_map sum_list_of_int)
    ultimately show ?thesis by (simp add: exact_double_def)
  qed
  then show ?thesis by (simp add: exact_sums_def list_all_iff)
qed

lemma trailing_snoc:
  assumes "0 < w"
  shows "drop (length (xs @ [y]) - w) (xs @ [y]) =
           (if w \<le> length xs then tl (drop (length xs - w) xs @ [y])
            else drop (length xs - w) xs @ [y])"
proof (cases "w \<le> length xs")
  case True
  then have ne: "drop (length xs - w) xs \<noteq> []" using assms by simp
  have "tl (drop (length xs - w) xs @ [y]) = drop (Suc (length xs - w)) xs @ [y]"
    using ne by (simp add: drop_Suc tl_drop)
  moreover have "Suc (length xs - w) = Suc (length xs) - w" using True by simp
  ultimately show ?thesis using True assms by simp
next
  case False
  then show ?thesis by simp
qed

lemma sum_list_tl: "zs \<noteq> [] \<Longrightarrow> sum_list (tl zs) = sum_list zs - (hd zs :: rat)"
  by (cases zs) simp_all

lemma window_at_prefix:
  "window_at w (length done) (done @ y # rest) = drop (length (done @ [y]) - w) (done @ [y])"
proof -
  have "Suc (length done) - min w (Suc (length done)) = Suc (length done) - w" by simp
  then show ?thesis by (simp add: window_at_def)
qed

lemma window_at_prefix_Suc:
  "window_at (Suc w) (length done) (done @ y # rest) = drop (length done - w) done @ [y]"
  using window_at_prefix [of "Suc w" "done" y rest] by simp

lemma sma_loop_exact:
  assumes w: "0 < w" and ex: "exact_sums w (done @ rest)"
  shows "sma_loop (int w) (map Finite rest) (map Finite (drop (length done - w) done))
           (Finite (sum_list (drop (length done - w) done))) res =
         Inr (res @ map (\<lambda>i. round_double (trailing_mean w (done @ rest) i))
                      [length done ..< length done + length rest])"
  using ex
proof (induction rest arbitrary: "done" res)
  case Nil
  show ?case by simp
next
  case (Cons y rest)
  let ?lys = "drop (length done - w) done"
  let ?done' = "done @ [y]"
  let ?lys' = "drop (length ?done' - w) ?done'"
  have here: "length done < length (done @ y # rest)" by simp
  have e1: "exact_double (sum_list ?lys + y)"
    using exact_sums_nth [OF Cons.prems here] by (simp add: window_at_prefix_Suc)
  have e2: "exact_double (sum_list ?lys')"
    using exact_sums_nth [OF Cons.prems here] by (simp only: window_at_prefix)
  have len': "length ?lys' = min w (Suc (length done))" by simp
  have pos: "0 < length ?lys'" using w by simp
  have cond: "int (length (map Finite ?lys @ [Finite y])) > int w \<longleftrightarrow> w \<le> length done"
    using w by auto
  have lys2: "(if w \<le> length done then tl (map Finite ?lys @ [Finite y])
               else map Finite ?lys @ [Finite y]) = map Finite ?lys'"
    using trailing_snoc [OF w, of "done" y] by (simp add: map_tl)
  have hd1: "hd (map Finite ?lys @ [Finite y]) = Finite (hd ?lys)" if "w \<le> length done"
  proof -
    have "?lys \<noteq> []" using w that by simp
    then show ?thesis by (simp only: hd_append2 hd_map map_is_Nil_conv not_False_eq_True)
  qed
  have add1: "fl_add (Finite (sum_list ?lys)) (Finite y) = Finite (sum_list ?lys + y)"
    using e1 by (rule fl_add_exact)
  have sum2: "(if w \<le> length done
               then fl_sub (fl_add (Finite (sum_list ?lys)) (Finite y))
                      (hd (map Finite ?lys @ [Finite y]))
               else fl_add (Finite (sum_list ?lys)) (Finite y)) = Finite (sum_list ?lys')"
  proof (cases "w \<le> length done")
    case True
    then have ne: "?lys \<noteq> []" using w by simp
    have "sum_list ?lys' = sum_list (tl (?lys @ [y]))"
      using trailing_snoc [OF w, of "done" y] True by simp
    also have "\<dots> = sum_list ?lys + y - hd ?lys"
      using ne by (simp add: sum_list_tl)
    finally have eq: "sum_list ?lys' = sum_list ?lys + y - hd ?lys" .
    have "fl_sub (Finite (sum_list ?lys + y)) (Finite (hd ?lys)) =
            Finite (sum_list ?lys + y - hd ?lys)"
      using e2 unfolding eq by (rule fl_sub_exact)
    then show ?thesis using True hd1 add1 eq by simp
  next
    case False
    then have "?lys' = ?lys @ [y]" using trailing_snoc [OF w, of "done" y] by simp
    then show ?thesis using False add1 by simp
  qed
  have avg: "fl_div_len (Finite (sum_list ?lys')) (length ?lys') =
               Inr (round_double (trailing_mean w (done @ y # rest) (length done)))"
  proof -
    obtain k where k: "length ?lys' = Suc k" using pos by (cases "length ?lys'") auto
    have "fl_div_len (Finite (sum_list ?lys')) (length ?lys')
            = Inr (round_double (sum_list ?lys' / of_nat (length ?lys')))"
      by (simp only: k fl_div_len.simps)
    then show ?thesis
      by (simp only: trailing_mean_def window_at_prefix len')
  qed
  have step: "sma_loop (int w) (map Finite (y # rest)) (map Finite ?lys)
                (Finite (sum_list ?lys)) res =
              sma_loop (int w) (map Finite rest) (map Finite ?lys')
                (Finite (sum_list ?lys'))
                (res @ [round_double (trailing_mean w (done @ y # rest) (length done))])"
  proof (cases "w \<le> length done")
    case True
    then show ?thesis using cond lys2 sum2 avg by (simp add: Let_def)
  next
    case False
    then show ?thesis using cond lys2 sum2 avg by (simp add: Let_def)
  qed
  let ?f = "\<lambda>i. round_double (trailing_mean w (done @ y # rest) i)"
  have upt: "[length done ..< length done + length (y # rest)] =
               length done # [length ?done' ..< length ?done' + length rest]"
    by (simp del: upt_Suc add: upt_conv_Cons)
  have ex': "exact_sums w (?done' @ rest)" using Cons.prems by simp
  have "sma_loop (int w) (map Finite rest) (map Finite ?lys') (Finite (sum_list ?lys'))
          (res @ [?f (length done)]) =
        Inr ((res @ [?f (length done)]) @ map ?f [length ?done' ..< length ?done' + length rest])"
    using Cons.IH [OF ex', of "res @ [?f (length done)]"] by simp
  also have "\<dots> = Inr (res @ map ?f [length done ..< length done + length (y # rest)])"
    unfolding upt by simp
  finally show ?case
    unfolding step .
qed

lemma calc_sma_exact:
  assumes "0 < averages_period self" and "exact_sums (nat (averages_period self)) ys"
  shows "calc_sma self x_values (map Finite ys) =
           Inr (x_values,
                map (\<lambda>i. round_double (trailing_mean (nat (averages_period self)) ys i))
                  [0..<length ys])"
proof -
  have w: "0 < nat (averages_period self)"
    and eq: "int (nat (averages_period self)) = averages_period self"
    using assms(1) by simp_all
  have "sma_loop (averages_period self) (map Finite ys) [] (Finite 0) [] =
          Inr (map (\<lambda>i. round_double (trailing_mean (nat (averages_period self)) ys i))
                 [0..<length ys])"
    using sma_loop_exact [OF w, of "[]" ys "[]"] assms(2) unfolding eq by simp
  then show ?thesis
    by (simp add: calc_sma_def)
qed

lemma calc_sma_int_series:
  assumes "0 < averages_period self" and "sum_list (map abs ks) < 2 ^ 53"
  shows "calc_sma self x_values (map Finite (map of_int ks)) =
           Inr (x_values,
                map (\<lambda>i. round_double (trailing_mean (nat (averages_period self))
                                         (map of_int ks) i))
                  [0..<length ks])"
  using calc_sma_exact [OF assms(1) exact_sums_int [OF assms(2)], of x_values] by simp






section \<open>Queries and the stored series\<close>

text \<open>What the two mutations do to the store, and what they leave alone.\<close>

lemma fappend_frame [simp]:
  "ilists (fappend a v h) = ilists h"
  "length (flists (fappend a v h)) = length (flists h)"
  "a < length (flists h) \<Longrightarrow> flists (fappend a v h) ! a = flists h ! a @ [v]"
  "b \<noteq> a \<Longrightarrow> flists (fappend a v h) ! b = flists h ! b"
  by (simp_all add: fappend_def)

lemma fpop0_frame [simp]:
  "fst (fpop0 a h) = hd (flists h ! a)"
  "ilists (snd (fpop0 a h)) = ilists h"
  "length (flists (snd (fpop0 a h))) = length (flists h)"
  "a < length (flists h) \<Longrightarrow> flists (snd (fpop0 a h)) ! a = tl (flists h ! a)"
  "b \<noteq> a \<Longrightarrow> flists (snd (fpop0 a h)) ! b = flists h ! b"
  by (simp_all add: fpop0_def)

lemma sma_loop_h_refines:
  assumes "ya < length (flists h)" "la < length (flists h)" "ra < length (flists h)"
    and "ya \<noteq> la" "ya \<noteq> ra" "la \<noteq> ra"
    and "i \<le> length (flists h ! ya)"
  shows "\<exists>r h'. sma_loop_h p ya i la rs ra h = Some (r, h')
           \<and> ilists h' = ilists h
           \<and> length (flists h') = length (flists h)
           \<and> (\<forall>a. a \<noteq> la \<and> a \<noteq> ra \<longrightarrow> flists h' ! a = flists h ! a)
           \<and> (case sma_loop p (drop i (flists h ! ya)) (flists h ! la) rs (flists h ! ra) of
                 Inl e \<Rightarrow> r = Inl e
               | Inr out \<Rightarrow> r = Inr () \<and> flists h' ! ra = out)"
  using assms
proof (induction "length (flists h ! ya) - i" arbitrary: i h rs)
  case 0
  then have "i = length (flists h ! ya)" by simp
  then show ?case
    by (subst sma_loop_h.simps) simp
next
  case (Suc n)
  let ?ys = "flists h ! ya"
  let ?lys = "flists h ! la"
  let ?res = "flists h ! ra"
  have lt: "i < length ?ys" using Suc.hyps(2) by simp
  let ?y = "?ys ! i"
  have drop: "drop i ?ys = ?y # drop (Suc i) ?ys"
    using lt by (simp add: Cons_nth_drop_Suc)
  let ?h1 = "fappend la ?y h"
  let ?c = "int (length (?lys @ [?y])) > p"
  let ?h2 = "if ?c then snd (fpop0 la ?h1) else ?h1"
  let ?rs2 = "if ?c then fl_sub (fl_add rs ?y) (hd (?lys @ [?y])) else fl_add rs ?y"
  let ?lys2 = "if ?c then tl (?lys @ [?y]) else ?lys @ [?y]"
  have h1la: "flists ?h1 ! la = ?lys @ [?y]" using Suc.prems(2) by simp
  have h2la: "flists ?h2 ! la = ?lys2" using Suc.prems(2) h1la by simp
  have h2len: "length (flists ?h2) = length (flists h)" by simp
  have h2il: "ilists ?h2 = ilists h" by simp
  have h2other: "a \<noteq> la \<Longrightarrow> flists ?h2 ! a = flists h ! a" for a by simp
  have unfold: "sma_loop_h p ya i la rs ra h =
      (case fl_div_len ?rs2 (length ?lys2) of
         Inl e \<Rightarrow> Some (Inl e, ?h2)
       | Inr avg \<Rightarrow> sma_loop_h p ya (Suc i) la ?rs2 ra (fappend ra avg ?h2))"
    using lt Suc.prems(2)
    by (subst sma_loop_h.simps) (simp add: Let_def case_prod_beta cong: sum.case_cong)
  have pure: "sma_loop p (drop i ?ys) ?lys rs ?res =
      (case fl_div_len ?rs2 (length ?lys2) of
         Inl e \<Rightarrow> Inl e
       | Inr avg \<Rightarrow> sma_loop p (drop (Suc i) ?ys) ?lys2 ?rs2 (?res @ [avg]))"
    unfolding drop by (simp add: Let_def cong: sum.case_cong)
  show ?case
  proof (cases "fl_div_len ?rs2 (length ?lys2)")
    case (Inl e)
    show ?thesis
      unfolding unfold pure Inl using h2len h2il h2other by simp
  next
    case (Inr avg)
    let ?h3 = "fappend ra avg ?h2"
    have len3: "length (flists ?h3) = length (flists h)" by simp
    have ya3: "flists ?h3 ! ya = ?ys" using Suc.prems(4,5) by simp
    have la3: "flists ?h3 ! la = ?lys2" using Suc.prems(6) h2la by simp
    have ra3: "flists ?h3 ! ra = ?res @ [avg]" using Suc.prems(3,6) by simp
    have n: "n = length (flists ?h3 ! ya) - Suc i" using Suc.hyps(2) ya3 by simp
    have valid: "ya < length (flists ?h3)" "la < length (flists ?h3)" "ra < length (flists ?h3)"
      using Suc.prems(1,2,3) len3 by simp_all
    have le: "Suc i \<le> length (flists ?h3 ! ya)" using lt ya3 by simp
    obtain r h' where run: "sma_loop_h p ya (Suc i) la ?rs2 ra ?h3 = Some (r, h')"
      and il: "ilists h' = ilists ?h3"
      and len: "length (flists h') = length (flists ?h3)"
      and other: "\<forall>a. a \<noteq> la \<and> a \<noteq> ra \<longrightarrow> flists h' ! a = flists ?h3 ! a"
      and res: "(case sma_loop p (drop (Suc i) (flists ?h3 ! ya)) (flists ?h3 ! la) ?rs2
                        (flists ?h3 ! ra) of
                   Inl e \<Rightarrow> r = Inl e
                 | Inr out \<Rightarrow> r = Inr () \<and> flists h' ! ra = out)"
      using Suc.hyps(1) [OF n valid Suc.prems(4,5,6) le, of ?rs2] by blast
    have other': "\<forall>a. a \<noteq> la \<and> a \<noteq> ra \<longrightarrow> flists h' ! a = flists h ! a"
      using other by simp
    show ?thesis
      unfolding unfold pure Inr
      using run il len other' res
      by (simp only: ya3 la3 ra3 len3 sum.case) simp
  qed
qed


lemma preserved_refl: "preserved h h"
  by (simp add: preserved_def)

lemma take_prefix_trans:
  assumes "take (length xs) ys = xs" and "take (length ys) zs = ys"
  shows "take (length xs) zs = xs"
proof -
  have le: "length xs \<le> length ys"
    using assms(1) by (metis length_take min.cobounded1)
  have "take (length xs) zs = take (length xs) (take (length ys) zs)"
    using le by (simp add: min_def)
  then show ?thesis using assms by simp
qed

lemma preserved_trans: "preserved h h1 \<Longrightarrow> preserved h1 h2 \<Longrightarrow> preserved h h2"
  unfolding preserved_def by (blast intro: take_prefix_trans)

lemma preserved_nth:
  assumes "preserved h h'"
  shows "a < length (ilists h) \<Longrightarrow> ilists h' ! a = ilists h ! a"
    and "b < length (flists h) \<Longrightarrow> flists h' ! b = flists h ! b"
    and "length (ilists h) \<le> length (ilists h')"
    and "length (flists h) \<le> length (flists h')"
proof -
  have i: "take (length (ilists h)) (ilists h') = ilists h"
    and f: "take (length (flists h)) (flists h') = flists h"
    using assms by (simp_all add: preserved_def)
  show "a < length (ilists h) \<Longrightarrow> ilists h' ! a = ilists h ! a"
    by (metis i nth_take)
  show "b < length (flists h) \<Longrightarrow> flists h' ! b = flists h ! b"
    by (metis f nth_take)
  show "length (ilists h) \<le> length (ilists h')"
    by (metis i length_take min.cobounded1)
  show "length (flists h) \<le> length (flists h')"
    by (metis f length_take min.cobounded1)
qed

lemma calc_sma_h_refines:
  assumes xa: "x_values < length (ilists h)" and ya: "y_values < length (flists h)"
  shows "\<exists>r h'. calc_sma_h self x_values y_values h = Some (r, h')
           \<and> preserved h h' \<and> valid_result h' r
           \<and> view h' r = calc_sma self (ilists h ! x_values) (flists h ! y_values)"
proof -
  let ?n = "length (flists h)"
  let ?h3 = "h\<lparr>ilists := ilists h @ [[]], flists := flists h @ [[], []]\<rparr>"
  have alloc: "calc_sma_h self x_values y_values h =
      (case sma_loop_h (averages_period self) y_values 0 (Suc ?n) (Finite 0) ?n ?h3 of
         None \<Rightarrow> None
       | Some (Inl e, h4) \<Rightarrow> Some (Inl e, h4)
       | Some (Inr _, h4) \<Rightarrow> Some (Inr (x_values, ?n), h4))"
    by (simp add: calc_sma_h_def new_ilist_def new_flist_def
        cong: option.case_cong prod.case_cong sum.case_cong)
  obtain r h' where run: "sma_loop_h (averages_period self) y_values 0 (Suc ?n) (Finite 0) ?n ?h3
                            = Some (r, h')"
    and il: "ilists h' = ilists ?h3"
    and len: "length (flists h') = length (flists ?h3)"
    and other: "\<forall>a. a \<noteq> Suc ?n \<and> a \<noteq> ?n \<longrightarrow> flists h' ! a = flists ?h3 ! a"
    and res: "(case sma_loop (averages_period self) (drop 0 (flists ?h3 ! y_values))
                      (flists ?h3 ! Suc ?n) (Finite 0) (flists ?h3 ! ?n) of
                 Inl e \<Rightarrow> r = Inl e
               | Inr out \<Rightarrow> r = Inr () \<and> flists h' ! ?n = out)"
    using sma_loop_h_refines [of y_values ?h3 "Suc ?n" ?n 0 "averages_period self" "Finite 0"] ya
    by auto
  have res': "(case sma_loop (averages_period self) (flists h ! y_values) [] (Finite 0) [] of
                  Inl e \<Rightarrow> r = Inl e
                | Inr out \<Rightarrow> r = Inr () \<and> flists h' ! ?n = out)"
    using res ya by (simp add: nth_append)
  have pres: "preserved h h'"
  proof -
    have "take ?n (flists h') = flists h"
    proof (rule nth_equalityI)
      show "length (take ?n (flists h')) = length (flists h)" using len by simp
    next
      fix a assume "a < length (take ?n (flists h'))"
      then have a: "a < ?n" by simp
      then have "flists h' ! a = flists ?h3 ! a" using other by simp
      then show "take ?n (flists h') ! a = flists h ! a" using a by (simp add: nth_append)
    qed
    then show ?thesis using il by (simp add: preserved_def)
  qed
  have xs': "ilists h' ! x_values = ilists h ! x_values"
    using il xa by (simp add: nth_append)
  show ?thesis
  proof (cases "sma_loop (averages_period self) (flists h ! y_values) [] (Finite 0) []")
    case (Inl e)
    then have "r = Inl e" using res' by simp
    then show ?thesis
      using alloc run pres Inl by (simp add: view_def valid_result_def calc_sma_def)
  next
    case (Inr out)
    then have "r = Inr ()" "flists h' ! ?n = out" using res' by simp_all
    then show ?thesis
      using alloc run pres Inr xs' xa il len
      by (simp add: view_def valid_result_def calc_sma_def)
  qed
qed

lemma calc_regression_h_refines:
  assumes xa: "x_values < length (ilists h)" and ya: "y_values < length (flists h)"
  shows "\<exists>r h'. calc_regression_h polyfit poly1d self x_values y_values h = (r, h')
           \<and> preserved h h' \<and> valid_result h' r
           \<and> view h' r = calc_regression polyfit poly1d self (ilists h ! x_values)
                            (flists h ! y_values)"
  using xa ya
  by (simp add: calc_regression_h_def calc_regression_def new_ilist_def new_flist_def Let_def
      preserved_def valid_result_def view_def nth_append split: sum.splits)

lemma view_preserved: "preserved h h' \<Longrightarrow> valid_result h r \<Longrightarrow> view h' r = view h r"
  by (cases r) (auto simp: view_def valid_result_def preserved_nth)

text \<open>
  Claim C9. In any store, for the index list and the value list of a channel, the smoother
  and the extrapolator each return; every list that existed before the query, the two
  stored lists among them, holds afterwards what it held before; the result denotes what
  the method computes from the contents of the two lists alone; a second query right after
  the first denotes the same result; and the first result is still intact after the second
  query.
\<close>

theorem views_leave_store_unchanged:
  assumes xa: "x_values < length (ilists h)" and ya: "y_values < length (flists h)"
  shows "(\<exists>r1 h1 r2 h2.
            calc_sma_h self x_values y_values h = Some (r1, h1)
            \<and> calc_sma_h self x_values y_values h1 = Some (r2, h2)
            \<and> preserved h h1 \<and> preserved h h2
            \<and> ilists h1 ! x_values = ilists h ! x_values
            \<and> flists h1 ! y_values = flists h ! y_values
            \<and> view h1 r1 = calc_sma self (ilists h ! x_values) (flists h ! y_values)
            \<and> view h2 r2 = view h1 r1
            \<and> view h2 r1 = view h1 r1)
       \<and> (\<exists>r1 h1 r2 h2.
            calc_regression_h polyfit poly1d self x_values y_values h = (r1, h1)
            \<and> calc_regression_h polyfit poly1d self x_values y_values h1 = (r2, h2)
            \<and> preserved h h1 \<and> preserved h h2
            \<and> ilists h1 ! x_values = ilists h ! x_values
            \<and> flists h1 ! y_values = flists h ! y_values
            \<and> view h1 r1 = calc_regression polyfit poly1d self (ilists h ! x_values)
                             (flists h ! y_values)
            \<and> view h2 r2 = view h1 r1
            \<and> view h2 r1 = view h1 r1)"
proof
  obtain r1 h1 where run1: "calc_sma_h self x_values y_values h = Some (r1, h1)"
    and p1: "preserved h h1" and v1: "valid_result h1 r1"
    and e1: "view h1 r1 = calc_sma self (ilists h ! x_values) (flists h ! y_values)"
    using calc_sma_h_refines [OF xa ya] by blast
  have same: "ilists h1 ! x_values = ilists h ! x_values"
    "flists h1 ! y_values = flists h ! y_values"
    using preserved_nth(1,2) [OF p1] xa ya by simp_all
  have xa1: "x_values < length (ilists h1)" and ya1: "y_values < length (flists h1)"
    using preserved_nth(3,4) [OF p1] xa ya by simp_all
  obtain r2 h2 where run2: "calc_sma_h self x_values y_values h1 = Some (r2, h2)"
    and p2: "preserved h1 h2"
    and e2: "view h2 r2 = calc_sma self (ilists h1 ! x_values) (flists h1 ! y_values)"
    using calc_sma_h_refines [OF xa1 ya1] by blast
  have "view h2 r2 = view h1 r1" using e1 e2 same by simp
  moreover have "view h2 r1 = view h1 r1" using view_preserved [OF p2 v1] .
  moreover have "preserved h h2" using preserved_trans [OF p1 p2] .
  ultimately show "\<exists>r1 h1 r2 h2.
            calc_sma_h self x_values y_values h = Some (r1, h1)
            \<and> calc_sma_h self x_values y_values h1 = Some (r2, h2)
            \<and> preserved h h1 \<and> preserved h h2
            \<and> ilists h1 ! x_values = ilists h ! x_values
            \<and> flists h1 ! y_values = flists h ! y_values
            \<and> view h1 r1 = calc_sma self (ilists h ! x_values) (flists h ! y_values)
            \<and> view h2 r2 = view h1 r1
            \<and> view h2 r1 = view h1 r1"
    using run1 run2 p1 same e1 by blast
next
  obtain r1 h1 where run1: "calc_regression_h polyfit poly1d self x_values y_values h = (r1, h1)"
    and p1: "preserved h h1" and v1: "valid_result h1 r1"
    and e1: "view h1 r1 = calc_regression polyfit poly1d self (ilists h ! x_values)
                            (flists h ! y_values)"
    using calc_regression_h_refines [OF xa ya] by blast
  have same: "ilists h1 ! x_values = ilists h ! x_values"
    "flists h1 ! y_values = flists h ! y_values"
    using preserved_nth(1,2) [OF p1] xa ya by simp_all
  have xa1: "x_values < length (ilists h1)" and ya1: "y_values < length (flists h1)"
    using preserved_nth(3,4) [OF p1] xa ya by simp_all
  obtain r2 h2 where run2: "calc_regression_h polyfit poly1d self x_values y_values h1 = (r2, h2)"
    and p2: "preserved h1 h2"
    and e2: "view h2 r2 = calc_regression polyfit poly1d self (ilists h1 ! x_values)
                            (flists h1 ! y_values)"
    using calc_regression_h_refines [OF xa1 ya1] by blast
  have "view h2 r2 = view h1 r1" using e1 e2 same by simp
  moreover have "view h2 r1 = view h1 r1" using view_preserved [OF p2 v1] .
  moreover have "preserved h h2" using preserved_trans [OF p1 p2] .
  ultimately show "\<exists>r1 h1 r2 h2.
            calc_regression_h polyfit poly1d self x_values y_values h = (r1, h1)
            \<and> calc_regression_h polyfit poly1d self x_values y_values h1 = (r2, h2)
            \<and> preserved h h1 \<and> preserved h h2
            \<and> ilists h1 ! x_values = ilists h ! x_values
            \<and> flists h1 ! y_values = flists h ! y_values
            \<and> view h1 r1 = calc_regression polyfit poly1d self (ilists h ! x_values)
                             (flists h ! y_values)
            \<and> view h2 r2 = view h1 r1
            \<and> view h2 r1 = view h1 r1"
    using run1 run2 p1 same e1 by blast
qed

lemma sma_example_heap:
  "calc_sma_h (init\<lparr>averages_period := 3\<rparr>) 0 0
     \<lparr>ilists = [[0, 1, 2, 3, 4]], flists = [map Finite [1, 2, 3, 4, 5]]\<rparr>
   = Some (Inr (0, 1),
       \<lparr>ilists = [[0, 1, 2, 3, 4], []],
        flists = [map Finite [1, 2, 3, 4, 5], map Finite [1, 3 / 2, 2, 3, 4],
                  map Finite [3, 4, 5]]\<rparr>)"
  by code_simp

theorem views_leave_store_unchanged_witness:
  "(0::nat) < length (ilists \<lparr>ilists = [[0, 1, 2, 3, 4]], flists = [map Finite [1, 2, 3, 4, 5]]\<rparr>)
   \<and> (0::nat) < length (flists \<lparr>ilists = [[0, 1, 2, 3, 4]], flists = [map Finite [1, 2, 3, 4, 5]]\<rparr>)
   \<and> calc_sma_h (init\<lparr>averages_period := 3\<rparr>) 0 0
        \<lparr>ilists = [[0, 1, 2, 3, 4]], flists = [map Finite [1, 2, 3, 4, 5]]\<rparr>
      = Some (Inr (0, 1),
          \<lparr>ilists = [[0, 1, 2, 3, 4], []],
           flists = [map Finite [1, 2, 3, 4, 5], map Finite [1, 3 / 2, 2, 3, 4],
                     map Finite [3, 4, 5]]\<rparr>)
   \<and> (\<exists>r1 h1 r2 h2.
        calc_sma_h (init\<lparr>averages_period := 3\<rparr>) 0 0
          \<lparr>ilists = [[0, 1, 2, 3, 4]], flists = [map Finite [1, 2, 3, 4, 5]]\<rparr> = Some (r1, h1)
        \<and> calc_sma_h (init\<lparr>averages_period := 3\<rparr>) 0 0 h1 = Some (r2, h2)
        \<and> ilists h1 ! 0 = [0, 1, 2, 3, 4]
        \<and> flists h1 ! 0 = map Finite [1, 2, 3, 4, 5]
        \<and> view h2 r2 = view h1 r1
        \<and> view h2 r1 = view h1 r1)
   \<and> (\<exists>r1 h1 r2 h2.
        calc_regression_h lsq_line horner (init\<lparr>averages_period := 3\<rparr>) 0 0
          \<lparr>ilists = [[0, 1, 2, 3, 4]], flists = [map Finite [1, 2, 3, 4, 5]]\<rparr> = (r1, h1)
        \<and> calc_regression_h lsq_line horner (init\<lparr>averages_period := 3\<rparr>) 0 0 h1 = (r2, h2)
        \<and> ilists h1 ! 0 = [0, 1, 2, 3, 4]
        \<and> flists h1 ! 0 = map Finite [1, 2, 3, 4, 5]
        \<and> view h2 r2 = view h1 r1
        \<and> view h2 r1 = view h1 r1)"
proof -
  let ?h = "\<lparr>ilists = [[0, 1, 2, 3, 4]], flists = [map Finite [1, 2, 3, 4, 5]]\<rparr>"
  let ?s = "init\<lparr>averages_period := 3\<rparr>"
  have xa: "(0::nat) < length (ilists ?h)" and ya: "(0::nat) < length (flists ?h)"
    by simp_all
  have cells: "ilists ?h ! 0 = [0, 1, 2, 3, 4]" "flists ?h ! 0 = map Finite [1, 2, 3, 4, 5]"
    by simp_all
  have both: "(\<exists>r1 h1 r2 h2.
        calc_sma_h ?s 0 0 ?h = Some (r1, h1)
        \<and> calc_sma_h ?s 0 0 h1 = Some (r2, h2)
        \<and> ilists h1 ! 0 = [0, 1, 2, 3, 4]
        \<and> flists h1 ! 0 = map Finite [1, 2, 3, 4, 5]
        \<and> view h2 r2 = view h1 r1
        \<and> view h2 r1 = view h1 r1)
   \<and> (\<exists>r1 h1 r2 h2.
        calc_regression_h lsq_line horner ?s 0 0 ?h = (r1, h1)
        \<and> calc_regression_h lsq_line horner ?s 0 0 h1 = (r2, h2)
        \<and> ilists h1 ! 0 = [0, 1, 2, 3, 4]
        \<and> flists h1 ! 0 = map Finite [1, 2, 3, 4, 5]
        \<and> view h2 r2 = view h1 r1
        \<and> view h2 r1 = view h1 r1)"
    using views_leave_store_unchanged [OF xa ya, of ?s lsq_line horner]
    unfolding cells by blast
  show ?thesis
    using xa ya sma_example_heap both by blast
qed

end
